theory Spec2Isabelle
  imports Main
begin

section \<open>Strings and regular expressions of the host language\<close>

text \<open>
  The generator is TypeScript. Its strings are modelled as \<^typ>\<open>string\<close>; a character
  stands for one code unit in the range 0..255, which covers every character the regular
  expressions of the generator name explicitly.
\<close>

definition dq :: char where
  "dq = CHR 0x22"

definition bslash :: char where
  "bslash = CHR 0x5C"

definition nl :: char where
  "nl = CHR 0x0A"

definition cr :: char where
  "cr = CHR 0x0D"

text \<open>The character classes used by the source's regular expressions.\<close>

definition isLineTerminator :: "char \<Rightarrow> bool" where
  "isLineTerminator c = (c = nl \<or> c = cr)"

definition isSpace :: "char \<Rightarrow> bool" where
  \<comment> \<open>\<open>\s\<close>: tab, line feed, vertical tab, form feed, carriage return, space, no-break space\<close>
  "isSpace c = (c \<in> set [CHR 0x09, CHR 0x0A, CHR 0x0B, CHR 0x0C, CHR 0x0D, CHR 0x20, CHR 0xA0])"

definition isWord :: "char \<Rightarrow> bool" where
  \<comment> \<open>\<open>\w\<close>: \<open>[A-Za-z0-9_]\<close>\<close>
  "isWord c = (let n = of_char c :: nat in
     (65 \<le> n \<and> n \<le> 90) \<or> (97 \<le> n \<and> n \<le> 122) \<or> (48 \<le> n \<and> n \<le> 57) \<or> n = 95)"

text \<open>
  Regular expressions, as far as the source uses them. \<open>Star True r\<close> is the greedy
  \<open>r*\<close>, \<open>Star False r\<close> the lazy \<open>r*?\<close>; \<open>Grp n r\<close> is the capturing group number
  \<open>n\<close>; \<open>Bol m\<close> and \<open>Eol m\<close> are \<open>^\<close> and \<open>$\<close>, with \<open>m\<close> the multiline flag.
\<close>

datatype rx =
    Lit string
  | Cls "char \<Rightarrow> bool"
  | Seq rx rx
  | Alt rx rx
  | Star bool rx
  | Opt rx
  | Grp nat rx
  | Bol bool
  | Eol bool

abbreviation Dot :: rx where
  \<comment> \<open>\<open>.\<close> without the \<open>s\<close> flag\<close>
  "Dot \<equiv> Cls (\<lambda>c. \<not> isLineTerminator c)"

abbreviation AnyChar :: rx where
  \<comment> \<open>\<open>[\s\S]\<close>\<close>
  "AnyChar \<equiv> Cls (\<lambda>c. isSpace c \<or> \<not> isSpace c)"

abbreviation Plus :: "bool \<Rightarrow> rx \<Rightarrow> rx" where
  "Plus g r \<equiv> Seq r (Star g r)"

text \<open>
  A matcher state: the character before the current position (if any), the text from the
  current position on, and the captures made so far.
\<close>

datatype mstate = MState (prev: "char option") (rest: string) (captures: "string option list")

fun lit :: "string \<Rightarrow> mstate \<Rightarrow> mstate list" where
  "lit [] st = [st]"
| "lit (c # cs) (MState p [] caps) = []"
| "lit (c # cs) (MState p (d # ds) caps) = (if c = d then lit cs (MState (Some d) ds caps) else [])"

definition setCapture :: "nat \<Rightarrow> mstate \<Rightarrow> mstate \<Rightarrow> mstate" where
  "setCapture n st st' =
     MState (prev st') (rest st')
       ((captures st')[n := Some (take (length (rest st) - length (rest st')) (rest st))])"

text \<open>
  Backtracking matching: \<open>rx_match r st\<close> lists the states in which a match of \<open>r\<close>
  starting in \<open>st\<close> can end, in the order in which a backtracking matcher tries them.
  An iteration of a starred expression that consumes nothing is not considered.
\<close>

function rx_match :: "rx \<Rightarrow> mstate \<Rightarrow> mstate list" where
  "rx_match (Lit cs) st = lit cs st"
| "rx_match (Cls P) (MState p s caps) =
     (case s of [] \<Rightarrow> [] | c # cs \<Rightarrow> if P c then [MState (Some c) cs caps] else [])"
| "rx_match (Seq a b) st = concat (map (rx_match b) (rx_match a st))"
| "rx_match (Alt a b) st = rx_match a st @ rx_match b st"
| "rx_match (Star g r) st =
     (let more = concat (map (\<lambda>st'. if length (rest st') < length (rest st)
                                      then rx_match (Star g r) st' else [])
                             (rx_match r st))
      in if g then more @ [st] else st # more)"
| "rx_match (Opt r) st = rx_match r st @ [st]"
| "rx_match (Grp n r) st = map (setCapture n st) (rx_match r st)"
| "rx_match (Bol m) (MState p s caps) =
     (case p of None \<Rightarrow> [MState p s caps]
      | Some c \<Rightarrow> if m \<and> isLineTerminator c then [MState p s caps] else [])"
| "rx_match (Eol m) (MState p s caps) =
     (case s of [] \<Rightarrow> [MState p s caps]
      | c # cs \<Rightarrow> if m \<and> isLineTerminator c then [MState p s caps] else [])"
  by pat_completeness auto

termination
  by (relation "measures [\<lambda>(r, st). size r, \<lambda>(r, st). length (rest st)]") auto

declare rx_match.simps(5) [simp del]

text \<open>No match ends before the position at which it started.\<close>

lemma lit_length: "st' \<in> set (lit cs st) \<Longrightarrow> length (rest st') \<le> length (rest st)"
  by (induction cs st rule: lit.induct) (auto split: if_splits)

lemma setCapture_rest: "rest (setCapture n st st') = rest st'"
  by (simp add: setCapture_def)

lemma rx_match_length:
  "st' \<in> set (rx_match r st) \<Longrightarrow> length (rest st') \<le> length (rest st)"
proof (induction r st arbitrary: st' rule: rx_match.induct)
  case (1 cs st)
  then show ?case by (simp add: lit_length)
next
  case (2 P p s caps)
  then show ?case by (auto split: list.splits if_splits)
next
  case (3 a b st)
  from "3.prems" obtain m where m: "m \<in> set (rx_match a st)" and s: "st' \<in> set (rx_match b m)"
    by auto
  from "3.IH"(1)[OF m] "3.IH"(2)[OF m s] show ?case by simp
next
  case (4 a b st)
  from "4.prems" have "st' \<in> set (rx_match a st) \<or> st' \<in> set (rx_match b st)" by simp
  with "4.IH" show ?case by blast
next
  case (5 g r st)
  from "5.prems" have "st' = st \<or> (\<exists>m \<in> set (rx_match r st).
      length (rest m) < length (rest st) \<and> st' \<in> set (rx_match (Star g r) m))"
    by (subst (asm) rx_match.simps(5)) (auto simp: Let_def split: if_splits)
  then show ?case
  proof
    assume "st' = st"
    then show ?thesis by simp
  next
    assume "\<exists>m \<in> set (rx_match r st).
      length (rest m) < length (rest st) \<and> st' \<in> set (rx_match (Star g r) m)"
    then obtain m where m: "m \<in> set (rx_match r st)" and l: "length (rest m) < length (rest st)"
      and s: "st' \<in> set (rx_match (Star g r) m)" by blast
    from "5.IH"(2)[OF m l s] l show ?thesis by simp
  qed
next
  case (6 r st)
  from "6.prems" have "st' \<in> set (rx_match r st) \<or> st' = st" by auto
  with "6.IH" show ?case by auto
next
  case (7 n r st)
  from "7.prems" obtain m where "m \<in> set (rx_match r st)" "st' = setCapture n st m" by auto
  with "7.IH"[of m] show ?case by (simp add: setCapture_rest)
next
  case (8 m p s caps)
  then show ?case by (auto split: option.splits if_splits)
next
  case (9 m p s caps)
  then show ?case by (auto split: list.splits if_splits)
qed

text \<open>
  \<open>RegExp.prototype.exec\<close> on a regular expression with \<open>n\<close> capturing groups: the first
  position, from the current one on, at which the expression matches, and there the first
  match the backtracking finds. The result is the text from the start of the match on and
  the state at its end, whose captures hold the whole match at index 0 and group \<open>i\<close>
  at index \<open>i\<close> (\<open>None\<close> is \<open>undefined\<close>).
\<close>

fun search :: "rx \<Rightarrow> nat \<Rightarrow> char option \<Rightarrow> string \<Rightarrow> (string \<times> mstate) option" where
  "search re n p [] =
     (case rx_match (Grp 0 re) (MState p [] (replicate (Suc n) None)) of
        st # _ \<Rightarrow> Some ([], st) | [] \<Rightarrow> None)"
| "search re n p (c # cs) =
     (case rx_match (Grp 0 re) (MState p (c # cs) (replicate (Suc n) None)) of
        st # _ \<Rightarrow> Some (c # cs, st) | [] \<Rightarrow> search re n (Some c) cs)"

lemma search_length:
  "search re n p s = Some (s0, st) \<Longrightarrow> length (rest st) \<le> length s0 \<and> length s0 \<le> length s"
proof (induction s arbitrary: p)
  case Nil
  then obtain sts where m: "rx_match (Grp 0 re) (MState p [] (replicate (Suc n) None)) = st # sts"
    and s0: "s0 = []"
    by (auto split: list.splits)
  from m have "st \<in> set (rx_match (Grp 0 re) (MState p [] (replicate (Suc n) None)))" by simp
  from rx_match_length[OF this] s0 show ?case by simp
next
  case (Cons c cs)
  show ?case
  proof (cases "rx_match (Grp 0 re) (MState p (c # cs) (replicate (Suc n) None))")
    case Nil
    with Cons.prems have "search re n (Some c) cs = Some (s0, st)" by simp
    from Cons.IH[OF this] show ?thesis by simp
  next
    case (Cons a as)
    with Cons.prems have e: "s0 = c # cs" "a = st" by auto
    from Cons e have "st \<in> set (rx_match (Grp 0 re) (MState p (c # cs) (replicate (Suc n) None)))"
      by simp
    from rx_match_length[OF this] e show ?thesis by simp
  qed
qed

definition exec :: "rx \<Rightarrow> nat \<Rightarrow> string \<Rightarrow> string option list option" where
  "exec re n s = (case search re n None s of None \<Rightarrow> None | Some (s0, st) \<Rightarrow> Some (captures st))"

text \<open>
  Modelled from the spec: \<open>execAll\<close> of \<open>build-utils\<close>, which is not among the sources.
  The parser of section 4.1 takes every header, operation and flag line of the text, so
  \<open>execAll re s\<close> is the list of all successive matches of the global expression \<open>re\<close>
  in \<open>s\<close>, each search starting where the previous match ended (one character further
  on after an empty match, which no expression of the generator can produce).
\<close>

function execAllFrom :: "rx \<Rightarrow> nat \<Rightarrow> char option \<Rightarrow> string \<Rightarrow> string option list list" where
  "execAllFrom re n p s =
     (case search re n p s of
        None \<Rightarrow> []
      | Some (s0, st) \<Rightarrow>
          captures st # (if length (rest st) < length s0 then execAllFrom re n (prev st) (rest st)
                     else (case rest st of [] \<Rightarrow> [] | c # cs \<Rightarrow> execAllFrom re n (Some c) cs)))"
  by pat_completeness auto

termination
proof (relation "measure (\<lambda>(re, n, p, s). length s)", goal_cases)
  case 1
  then show ?case by simp
next
  case (2 re n p s x2 s0 st)
  then have "search re n p s = Some (s0, st)" by simp
  from search_length[OF this] have "length (rest st) \<le> length s0" "length s0 \<le> length s"
    by simp_all
  with \<open>length (rest st) < length s0\<close> show ?case by simp
next
  case (3 re n p s x2 s0 st c cs)
  then have "search re n p s = Some (s0, st)" by simp
  from search_length[OF this] have "length (rest st) \<le> length s0" "length s0 \<le> length s"
    by simp_all
  with \<open>rest st = c # cs\<close> show ?case by simp
qed

declare execAllFrom.simps [simp del]

definition execAll :: "rx \<Rightarrow> nat \<Rightarrow> string \<Rightarrow> string option list list" where
  "execAll re n s = execAllFrom re n None s"

section \<open>The parser of test specifications\<close>

fun seqs :: "rx list \<Rightarrow> rx" where
  "seqs [] = Lit []"
| "seqs [r] = r"
| "seqs (r # rs) = Seq r (seqs rs)"

text \<open>
  The regular expressions of \<open>parseMarkdownTests\<close>, all with the flags \<open>gm\<close>:
  \<^item> \<open>re\<close> is \<^verbatim>\<open>/^# (.+)\n(?:\[.+?\]\(#(.+?)\)\n)?([\s\S]+?)^```\n([\s\S]+?)^```\n/gm\<close>,
  \<^item> \<open>opre\<close> is \<^verbatim>\<open>/^- *([\w.:]+)( +.+)?$|^> *(.+)$/gm\<close>,
  \<^item> \<open>flagLineRe\<close> is \<^verbatim>\<open>/^> *(.+)$/gm\<close>,
  \<^item> \<open>headerRe\<close> is \<^verbatim>\<open>/^# /gm\<close>.
\<close>

definition fence :: rx where
  "fence = Seq (Bol True) (Lit [CHR 0x60, CHR 0x60, CHR 0x60, nl])"

definition re :: rx where
  "re = seqs [Bol True, Lit ''# '', Grp 1 (Plus True Dot), Lit [nl],
              Opt (seqs [Lit ''['', Plus False Dot, Lit '']'', Lit ''(#'', Grp 2 (Plus False Dot),
                         Lit '')'', Lit [nl]]),
              Grp 3 (Plus False AnyChar), fence,
              Grp 4 (Plus False AnyChar), fence]"

definition opre :: rx where
  "opre = Alt (seqs [Bol True, Lit ''-'', Star True (Lit '' ''),
                     Grp 1 (Plus True (Cls (\<lambda>c. isWord c \<or> c = CHR ''.'' \<or> c = CHR '':''))),
                     Opt (Grp 2 (Seq (Plus True (Lit '' '')) (Plus True Dot))), Eol True])
              (seqs [Bol True, Lit ''>'', Star True (Lit '' ''), Grp 3 (Plus True Dot), Eol True])"

definition flagLineRe :: rx where
  "flagLineRe = seqs [Bol True, Lit ''>'', Star True (Lit '' ''), Grp 1 (Plus True Dot), Eol True]"

definition headerRe :: rx where
  "headerRe = Seq (Bol True) (Lit ''# '')"

text \<open>
  The interfaces \<open>InitialDocument\<close>, \<open>TestOperation\<close> and \<open>Test\<close>. A \<open>Test\<close> has the
  fields of an \<open>InitialDocument\<close> and two more, so it is modelled as its extension.
\<close>

record InitialDocument =
  title :: string
  flags :: "string list"
  code :: string

record TestOperation =
  command :: string
  args :: "string option"

record Test = InitialDocument +
  comesAfter :: string
  operations :: "TestOperation list"

datatype error =
    AssertionError string
  | Error string

text \<open>\<open>badTitle.replace(/\s/g, "-")\<close>: every whitespace character becomes one hyphen.\<close>

definition replaceSpaces :: "string \<Rightarrow> string" where
  "replaceSpaces badTitle = map (\<lambda>c. if isSpace c then CHR ''-'' else c) badTitle"

text \<open>
  The body of the inner loop over the matches of \<open>opre\<close>: a match of the second
  alternative has group 3 (never empty) and is a flag, a match of the first is an operation.
\<close>

fun parseOperation ::
  "string option list \<Rightarrow> TestOperation list \<times> string list \<Rightarrow> TestOperation list \<times> string list" where
  "parseOperation [m, c, a, Some flag] (ops, fs) = (ops, fs @ [flag])"
| "parseOperation [m, Some c, a, None] (ops, fs) = (ops @ [\<lparr>command = c, args = a\<rparr>], fs)"
| "parseOperation m (ops, fs) = (ops, fs)"

text \<open>The body of the loop over the matches of \<open>re\<close>.\<close>

fun parseEntry ::
  "string option list \<Rightarrow> InitialDocument list \<times> Test list \<Rightarrow> InitialDocument list \<times> Test list" where
  "parseEntry [m, Some badTitle, after_opt, Some operationsText, Some after] (initial, ts) =
     (let t = replaceSpaces badTitle in
      case after_opt of
        None \<Rightarrow>
          (let fs = map (\<lambda>g. the (g ! 1)) (execAll flagLineRe 1 operationsText)
           in (initial @ [\<lparr>title = t, flags = fs, code = after\<rparr>], ts))
      | Some ca \<Rightarrow>
          (let (ops, fs) = foldl (\<lambda>acc g. parseOperation g acc) ([], []) (execAll opre 3 operationsText)
           in (initial, ts @ [\<lparr>title = t, flags = fs, code = after, comesAfter = ca, operations = ops\<rparr>])))"
| "parseEntry m (initial, ts) = (initial, ts)"

definition parseEntries :: "string \<Rightarrow> InitialDocument list \<times> Test list" where
  "parseEntries contents = foldl (\<lambda>acc m. parseEntry m acc) ([], []) (execAll re 4 contents)"

text \<open>The two dependency loops; \<open>exists\<close> is the set of titles known so far.\<close>

definition initialMessage :: "string \<Rightarrow> string" where
  "initialMessage t = ''initial document state '' @ [dq] @ t @ [dq] @ '' is defined multiple times''"

definition unknownMessage :: "string \<Rightarrow> string \<Rightarrow> string" where
  "unknownMessage t ca = ''test '' @ [dq] @ t @ [dq] @ '' depends on unknown test '' @ [dq] @ ca @ [dq]"

fun checkInitial :: "InitialDocument list \<Rightarrow> string set \<Rightarrow> error + string set" where
  "checkInitial [] exists = Inr exists"
| "checkInitial (d # ds) exists =
     (if title d \<in> exists then Inl (AssertionError (initialMessage (title d)))
      else checkInitial ds (insert (title d) exists))"

fun checkTests :: "Test list \<Rightarrow> string set \<Rightarrow> error + string set" where
  "checkTests [] exists = Inr exists"
| "checkTests (t # ts) exists =
     (if comesAfter t \<in> exists then checkTests ts (insert (title t) exists)
      else Inl (AssertionError (unknownMessage (title t) (comesAfter t))))"

record ParseResult =
  setups :: "InitialDocument list"
  tests :: "Test list"

definition parseMarkdownTests :: "string \<Rightarrow> error + ParseResult" where
  "parseMarkdownTests contents =
     (case parseEntries contents of (initial, ts) \<Rightarrow>
        if length (execAll headerRe 0 contents) \<noteq> length ts + length initial
        then Inl (AssertionError ''not all tests were parsed'')
        else (case checkInitial initial {} of
                Inl e \<Rightarrow> Inl e
              | Inr exists \<Rightarrow>
                  (case checkTests ts exists of
                     Inl e \<Rightarrow> Inl e
                   | Inr exists' \<Rightarrow> Inr \<lparr>setups = initial, tests = ts\<rparr>)))"

section \<open>The operation sequencer\<close>

text \<open>
  \<open>JSON.stringify\<close> on a string: the string in double quotes, with the double quote, the
  backslash and the control characters escaped; on \<open>undefined\<close> the result is
  \<open>undefined\<close>, which a template literal prints as that word.
\<close>

definition hexDigit :: "nat \<Rightarrow> char" where
  "hexDigit n = (''0123456789abcdef'') ! (n mod 16)"

definition escapeChar :: "char \<Rightarrow> string" where
  "escapeChar c =
     (if c = dq then [bslash, dq]
      else if c = bslash then [bslash, bslash]
      else if c = CHR 0x08 then [bslash, CHR ''b'']
      else if c = CHR 0x0C then [bslash, CHR ''f'']
      else if c = CHR 0x0A then [bslash, CHR ''n'']
      else if c = CHR 0x0D then [bslash, CHR ''r'']
      else if c = CHR 0x09 then [bslash, CHR ''t'']
      else if (of_char c :: nat) < 32
        then [bslash, CHR ''u'', CHR ''0'', CHR ''0'',
              hexDigit ((of_char c :: nat) div 16), hexDigit (of_char c :: nat)]
      else [c])"

definition jsonStringify :: "string \<Rightarrow> string" where
  "jsonStringify s = [dq] @ concat (map escapeChar s) @ [dq]"

definition jsonStringifyOpt :: "string option \<Rightarrow> string" where
  "jsonStringifyOpt v = (case v of None \<Rightarrow> ''undefined'' | Some s \<Rightarrow> jsonStringify s)"

text \<open>A number in a template literal: its decimal digits.\<close>

fun showNat :: "nat \<Rightarrow> string" where
  "showNat n = (if n < 10 then [hexDigit n] else showNat (n div 10) @ [hexDigit (n mod 10)])"

declare showNat.simps [simp del]

text \<open>\<open>s.startsWith(p)\<close>, \<open>s[i]\<close> and the conversion of an array of strings to a string.\<close>

definition startsWith :: "string \<Rightarrow> string \<Rightarrow> bool" where
  "startsWith s p = (take (length p) s = p)"

definition charAt :: "string \<Rightarrow> nat \<Rightarrow> string option" where
  "charAt s i = (if i < length s then Some [s ! i] else None)"

fun joinWith :: "string \<Rightarrow> string list \<Rightarrow> string" where
  "joinWith sep [] = []"
| "joinWith sep [x] = x"
| "joinWith sep (x # xs) = x @ sep @ joinWith sep xs"

text \<open>
  The regular expression of the flags, without flags of its own:
  \<^verbatim>\<open>/^(\w+)\.(behavior) <- (caret|character)$/\<close>.
\<close>

definition flagRe :: rx where
  "flagRe = seqs [Bol False, Grp 1 (Plus True (Cls isWord)), Lit ''.'', Grp 2 (Lit ''behavior''),
                  Lit '' <- '', Grp 3 (Alt (Lit ''caret'') (Lit ''character'')), Eol False]"

definition behaviorStep :: "string \<Rightarrow> string \<Rightarrow> string" where
  "behaviorStep scope v =
     ''await executeCommand('' @ [dq] @ ''dance.dev.setSelectionBehavior'' @ [dq] @ '', ''
     @ ''{ mode: '' @ [dq] @ scope @ [dq] @ '', value: '' @ [dq] @ v @ [dq] @ '' });'' @ [nl]"

text \<open>The loop over the flags; \<open>txt\<close> is the text emitted so far.\<close>

fun forFlags :: "string list \<Rightarrow> string \<Rightarrow> error + string" where
  "forFlags [] txt = Inr txt"
| "forFlags (flag # fs) txt =
     (case exec flagRe 3 flag of
        Some m \<Rightarrow> forFlags fs (txt @ behaviorStep (the (m ! 1)) (the (m ! 3)))
      | None \<Rightarrow> Inl (Error (''unrecognized flag '' @ jsonStringify flag)))"

text \<open>
  The inner \<open>while\<close> loop: as long as the operation after index \<open>i\<close> is a \<open>type:\<close>
  command, \<open>i\<close> moves on to it and a delayed promise that types character 5 of the
  command is pushed.
\<close>

definition typePromise :: "string option \<Rightarrow> nat \<Rightarrow> string" where
  "typePromise c delay =
     ''new Promise((resolve) => setTimeout(() => executeCommand('' @ [dq] @ ''type'' @ [dq]
     @ '', { text: '' @ jsonStringifyOpt c @ '' }).then(resolve), '' @ showNat delay @ ''))''"

function whileType :: "TestOperation list \<Rightarrow> nat \<Rightarrow> string list \<Rightarrow> nat \<times> string list" where
  "whileType ops i promises =
     (if i + 1 < length ops \<and> startsWith (command (ops ! (i + 1))) ''type:''
      then whileType ops (i + 1)
             (promises @ [typePromise (charAt (command (ops ! (i + 1))) 5) (length promises * 20)])
      else (i, promises))"
  by pat_completeness auto

termination
  by (relation "measure (\<lambda>(ops, i, promises). length ops - i)") auto

declare whileType.simps [simp del]

lemma whileType_index: "whileType ops i promises = (j, ps) \<Longrightarrow> i \<le> j"
proof (induction ops i promises rule: whileType.induct)
  case (1 ops i promises)
  show ?case
  proof (cases "i + 1 < length ops \<and> startsWith (command (ops ! (i + 1))) ''type:''")
    case True
    with "1.prems" have "whileType ops (i + 1)
        (promises @ [typePromise (charAt (command (ops ! (i + 1))) 5) (length promises * 20)]) = (j, ps)"
      by (subst (asm) whileType.simps) simp
    from "1.IH"[OF True this] show ?thesis by simp
  next
    case False
    with "1.prems" show ?thesis by (subst (asm) whileType.simps) auto
  qed
qed

text \<open>The first promise of a step: the invocation of the operation's command.\<close>

definition invocation :: "TestOperation \<Rightarrow> string" where
  "invocation operation =
     (let argsString = (case args operation of
                          None \<Rightarrow> []
                        | Some a \<Rightarrow> if a = [] then [] else '', '' @ a);
          cmd = (if charAt (command operation) 0 = Some ''.'' then ''dance'' @ command operation
                 else command operation)
      in ''executeCommand('' @ jsonStringify cmd @ argsString @ '')'')"

definition awaitStep :: "string list \<Rightarrow> string" where
  "awaitStep promises =
     (if length promises = 1 then ''await '' @ promises ! 0 @ '';'' @ [nl]
      else ''await Promise.all(['' @ joinWith '','' (map (\<lambda>x. [nl] @ ''  '' @ x @ '','') promises)
           @ '']);'')"

function forOperations :: "TestOperation list \<Rightarrow> nat \<Rightarrow> string \<Rightarrow> string" where
  "forOperations ops i txt =
     (if i < length ops
      then (case whileType ops i [invocation (ops ! i)] of
              (j, promises) \<Rightarrow> forOperations ops (j + 1) (txt @ awaitStep promises))
      else txt)"
  by pat_completeness auto

termination
proof (relation "measure (\<lambda>(ops, i, txt). length ops - i)", goal_cases)
  case 1
  then show ?case by simp
next
  case (2 ops i acc j promises)
  then have "whileType ops i [invocation (ops ! i)] = (j, promises)" by simp
  from whileType_index[OF this] \<open>i < length ops\<close> show ?case by simp
qed

declare forOperations.simps [simp del]

text \<open>
  For stating what the loops emit: the test of the inner loop on one operation, and the
  promises the inner loop pushes for a run of \<open>type:\<close> operations when \<open>n\<close> promises are
  already in the group.
\<close>

definition isTypeOp :: "TestOperation \<Rightarrow> bool" where
  "isTypeOp operation = startsWith (command operation) ''type:''"

fun typedPromises :: "nat \<Rightarrow> TestOperation list \<Rightarrow> string list" where
  "typedPromises n [] = []"
| "typedPromises n (operation # ops) =
     typePromise (charAt (command operation) 5) (n * 20) # typedPromises (Suc n) ops"

definition stringifyOperations :: "Test \<Rightarrow> error + string" where
  "stringifyOperations t =
     (case forFlags (flags t) [] of
        Inl e \<Rightarrow> Inl e
      | Inr txt \<Rightarrow> Inr (forOperations (operations t) 0 txt))"

section \<open>The code generator\<close>

text \<open>
  The functions \<open>unindent\<close> (of \<open>meta\<close>), \<open>longestStringLength\<close> and
  \<open>stringifyExpectedDocument\<close> (of \<open>build-utils\<close>) are not among the sources; \<open>build\<close>
  is modelled for any three functions of their types.
\<close>

record Utils =
  unindent :: "nat \<Rightarrow> string \<Rightarrow> string"
  longestStringLength :: "(Test \<Rightarrow> string) \<Rightarrow> Test list \<Rightarrow> nat"
  stringifyExpectedDocument :: "string \<Rightarrow> nat \<Rightarrow> nat \<Rightarrow> string"

text \<open>
  \<open>s.padEnd(n)\<close>, \<open>" ".repeat(n)\<close>, \<open>s.replace(/^/gm, pad)\<close> (the pad goes in at the start
  of the text and after every line terminator), and the lines of a template, each ended by
  a line feed.
\<close>

definition padEnd :: "string \<Rightarrow> nat \<Rightarrow> string" where
  "padEnd s n = s @ replicate (n - length s) CHR '' ''"

definition spaces :: "nat \<Rightarrow> string" where
  "spaces n = replicate n CHR '' ''"

definition replaceLineStarts :: "string \<Rightarrow> string \<Rightarrow> string" where
  "replaceLineStarts pad s = pad @ concat (map (\<lambda>c. if isLineTerminator c then c # pad else [c]) s)"

definition templateLines :: "string list \<Rightarrow> string" where
  "templateLines ls = concat (map (\<lambda>l. l @ [nl]) ls)"

text \<open>The entries of the \<open>documents\<close> table: one per setup and one per test.\<close>

definition setupEntry :: "Utils \<Rightarrow> InitialDocument \<Rightarrow> string" where
  \<open>setupEntry u d =
     ''"'' @ title d @ ''": Promise.resolve('' @ stringifyExpectedDocument u (code d) 18 12 @ ''),''\<close>

definition placeholderEntry :: "Test \<Rightarrow> string" where
  \<open>placeholderEntry t =
     ''"'' @ title t @ ''": new Promise((resolve) => notifyDependents["'' @ title t @ ''"] = resolve),''\<close>

text \<open>
  The generated test of one transition (the inner template); it fails where
  \<open>stringifyOperations\<close> throws.
\<close>

definition testBlock :: "Utils \<Rightarrow> nat \<Rightarrow> nat \<Rightarrow> Test \<Rightarrow> error + string" where
  \<open>testBlock u comesAfterPadding testNamePadding t =
     (let paddedComesAfter = padEnd (comesAfter t) comesAfterPadding;
          paddedTitle = padEnd (title t) testNamePadding
      in case stringifyOperations t of
           Inl e \<Rightarrow> Inl e
         | Inr steps \<Rightarrow> Inr (unindent u 4 (
             [nl] @
             templateLines
               [''            test("transition '' @ paddedComesAfter @ '' > '' @ paddedTitle
                  @ ''", async function () {'',
                ''              const beforeDocument = await documents["'' @ comesAfter t @ ''"];'',
                '''',
                ''              if (beforeDocument === undefined) {'',
                ''                notifyDependents["'' @ title t @ ''"](undefined);'',
                ''                this.skip();'',
                ''              }'',
                '''',
                ''              const afterDocument = '' @ stringifyExpectedDocument u (code t) 16 6 @ '';'',
                '''',
                ''              try {'',
                ''                // Set-up document to be in expected initial state.'',
                ''                await beforeDocument.apply(editor);'',
                '''',
                ''                // Perform all operations.'' @ [nl] @ replaceLineStarts (spaces 16) steps,
                ''                // Ensure document is as expected.'',
                ''                afterDocument.assertEquals(editor);'',
                '''',
                ''                // Test passed, allow dependent tests to run.'',
                ''                notifyDependents["'' @ title t @ ''"](afterDocument);'',
                ''              } catch (e) {'',
                ''                notifyDependents["'' @ title t @ ''"](undefined);'',
                '''',
                ''                throw e;'',
                ''              }'']
             @ ''            });'')))\<close>

text \<open>\<open>tests.map(...)\<close> with a function that may throw: the first error, in order, wins.\<close>

fun mapResult :: "('a \<Rightarrow> error + 'b) \<Rightarrow> 'a list \<Rightarrow> error + 'b list" where
  "mapResult f [] = Inr []"
| "mapResult f (x # xs) =
     (case f x of
        Inl e \<Rightarrow> Inl e
      | Inr y \<Rightarrow> (case mapResult f xs of Inl e \<Rightarrow> Inl e | Inr ys \<Rightarrow> Inr (y # ys)))"

text \<open>The suite (the outer template), from the name of the file and the three lists.\<close>

definition suiteText :: "string \<Rightarrow> string list \<Rightarrow> string list \<Rightarrow> string list \<Rightarrow> string" where
  \<open>suiteText name seeds placeholders blocks =
     templateLines
       [''      import * as vscode from "vscode";'',
       '''',
       ''      import { ExpectedDocument } from "../utils";'',
       '''',
       ''      const executeCommand = vscode.commands.executeCommand;'',
       '''']
     @ ''      suite("'' @ name @ ''", function () {'' @ [nl]
     @ templateLines
       [''        // Set up document.'',
       ''        let document: vscode.TextDocument,'',
       ''            editor: vscode.TextEditor;'',
       '''',
       ''        this.beforeAll(async () => {'',
       ''          document = await vscode.workspace.openTextDocument();'',
       ''          editor = await vscode.window.showTextDocument(document);'',
       '''',
       ''          await executeCommand("dance.dev.setSelectionBehavior", { mode: "normal", value: "caret" });'',
       ''        });'',
       '''',
       ''        this.afterAll(async () => {'',
       ''          await executeCommand("workbench.action.closeActiveEditor");'',
       ''        });'',
       '''',
       ''        // Each test sets up using its previous document, and notifies its'',
       ''        // dependents that it is done by writing its document to `documents`.'',
       ''        // This ensures that tests are executed in the right order, and that we skip'',
       ''        // tests whose dependencies failed.'',
       ''        const notifyDependents: Record<string, (document: ExpectedDocument | undefined) => void> = {},'',
       ''              documents: Record<string, Promise<ExpectedDocument | undefined>> = {'']
     @ spaces 16 @ joinWith ([nl] @ spaces 16) seeds @ [nl]
     @ [nl]
     @ spaces 16 @ joinWith ([nl] @ spaces 16) placeholders @ [nl]
     @ ''              };'' @ [nl]
     @ spaces 8 @ joinWith [nl] blocks @ [nl]
     @ ''      });'' @ [nl]
     @ spaces 4\<close>

text \<open>
  The body of the loop of \<open>build\<close> for one file, up to the text that is written. The name
  of a directory entry is its own base name.
\<close>

definition buildFile :: "Utils \<Rightarrow> string \<Rightarrow> string \<Rightarrow> error + string" where
  "buildFile u file contents =
     (case parseMarkdownTests contents of
        Inl e \<Rightarrow> Inl e
      | Inr r \<Rightarrow>
          (let testNamePadding = longestStringLength u title (tests r);
               comesAfterPadding = longestStringLength u comesAfter (tests r)
           in case mapResult (testBlock u comesAfterPadding testNamePadding) (tests r) of
                Inl e \<Rightarrow> Inl e
              | Inr blocks \<Rightarrow>
                  Inr (unindent u 6
                        (suiteText file (map (setupEntry u) (setups r))
                           (map placeholderEntry (tests r)) blocks))))"

text \<open>
  \<open>build\<close>: the entries of the commands directory are given with their contents, in the
  order of \<open>readdir\<close>; the result is the list of the files written, in order, and the error
  that ended the build, if any. \<open>f.endsWith(".md")\<close> selects the files, and
  \<open>filePath.replace(/\.md$/, ".test.ts")\<close> names the output.
\<close>

definition endsWith :: "string \<Rightarrow> string \<Rightarrow> bool" where
  "endsWith s p = (length p \<le> length s \<and> drop (length s - length p) s = p)"

definition testPath :: "string \<Rightarrow> string" where
  "testPath filePath =
     (if endsWith filePath ''.md'' then take (length filePath - 3) filePath @ ''.test.ts''
      else filePath)"

fun buildLoop ::
  "Utils \<Rightarrow> string \<Rightarrow> (string \<times> string) list \<Rightarrow> (string \<times> string) list
     \<Rightarrow> (string \<times> string) list \<times> error option" where
  "buildLoop u commandsDir [] written = (written, None)"
| "buildLoop u commandsDir ((file, contents) # files) written =
     (case buildFile u file contents of
        Inl e \<Rightarrow> (written, Some e)
      | Inr output \<Rightarrow>
          buildLoop u commandsDir files
            (written @ [(testPath (commandsDir @ ''/'' @ file), output)]))"

definition build ::
  "Utils \<Rightarrow> string \<Rightarrow> (string \<times> string) list \<Rightarrow> (string \<times> string) list \<times> error option" where
  "build u commandsDir entries =
     buildLoop u commandsDir (filter (\<lambda>(f, c). endsWith f ''.md'') entries) []"

section \<open>The generated suite at run time\<close>

text \<open>
  What the emitted suite does when the test runner executes it, as far as the promise
  bookkeeping goes. A document state is identified with the fenced text it is built from;
  \<open>None\<close> is \<open>undefined\<close>. A promise is pending or resolved, and resolving a resolved
  promise changes nothing. \<open>documents\<close> and \<open>notifyDependents\<close> are the two tables of the
  suite: the keys of an object are unique, so a later entry with a key replaces an earlier
  one. The promises themselves are kept in a list, a promise being named by its index.
\<close>

datatype promise = Pending | Resolved "string option"

record Suite =
  promises :: "promise list"
  documents :: "string \<rightharpoonup> nat"
  notifyDependents :: "string \<rightharpoonup> nat"

text \<open>
  The evaluation of the object literal of \<open>documents\<close>: the entries of the setups, each an
  already resolved promise, then the entries of the tests, each a new promise whose executor
  stores its resolver under the title.
\<close>

fun seedSetups :: "InitialDocument list \<Rightarrow> Suite \<Rightarrow> Suite" where
  "seedSetups [] s = s"
| "seedSetups (d # ds) s =
     seedSetups ds
       (s\<lparr>promises := promises s @ [Resolved (Some (code d))],
          documents := (documents s)(title d \<mapsto> length (promises s))\<rparr>)"









section \<open>Notions for stating and proving the claims\<close>

text \<open>The state reached from a state by consuming its first \<open>k\<close> characters.\<close>

fun advance :: "nat \<Rightarrow> mstate \<Rightarrow> mstate" where
  "advance 0 st = st"
| "advance (Suc k) (MState p [] caps) = MState p [] caps"
| "advance (Suc k) (MState p (c # cs) caps) = advance k (MState (Some c) cs caps)"

text \<open>The part of \<open>flagRe\<close> after the scope.\<close>

definition flagTail :: rx where
  "flagTail = seqs [Lit ''.'', Grp 2 (Lit ''behavior''), Lit '' <- '',
                    Grp 3 (Alt (Lit ''caret'') (Lit ''character'')), Eol False]"

text \<open>
  The flag grammar in the words of the specification,
  \<^verbatim>\<open><scope>.behavior <- caret|character\<close>, with a scope of one or more word characters.
\<close>

definition flagGrammar :: "string \<Rightarrow> string \<Rightarrow> string \<Rightarrow> bool" where
  "flagGrammar flag scope v \<longleftrightarrow>
     flag = scope @ ''.behavior <- '' @ v \<and> scope \<noteq> [] \<and> list_all isWord scope \<and>
     (v = ''caret'' \<or> v = ''character'')"



section \<open>Example inputs\<close>

text \<open>
  Stand-ins for the three functions that are not among the sources.
\<close>

definition plainUtils :: Utils where
  "plainUtils = \<lparr>unindent = (\<lambda>n s. s), longestStringLength = (\<lambda>f ts. 0),
                  stringifyExpectedDocument = (\<lambda>c a b. c)\<rparr>"

text \<open>A transition with a flag, a command followed by two typed characters, and a command.\<close>

definition exampleTest :: Test where
  "exampleTest = \<lparr>title = ''B'', flags = [''normal.behavior <- caret''], code = ''b'',
     comesAfter = ''A'',
     operations = [\<lparr>command = ''.insert.a'', args = None\<rparr>,
                   \<lparr>command = ''type:a'', args = None\<rparr>,
                   \<lparr>command = ''type:b'', args = None\<rparr>,
                   \<lparr>command = ''.left'', args = Some '' { count: 2 }''\<rparr>]\<rparr>"

text \<open>A transition whose first operation is a \<open>type:\<close> operation followed by another one.\<close>

definition leadingTypeTest :: Test where
  "leadingTypeTest = \<lparr>title = ''B'', flags = [], code = ''b'', comesAfter = ''A'',
     operations = [\<lparr>command = ''type:a'', args = None\<rparr>,
                   \<lparr>command = ''type:b'', args = None\<rparr>]\<rparr>"

text \<open>Transition \<open>B\<close> comes after \<open>C\<close>, which is declared after it.\<close>

definition forwardSpec :: string where
  "forwardSpec = ''# A\<newline>\<newline>```\<newline>a\<newline>```\<newline># B\<newline>[up](#C)\<newline>- x\<newline>```\<newline>b\<newline>```\<newline># C\<newline>[up](#A)\<newline>- y\<newline>```\<newline>c\<newline>```\<newline>''"

text \<open>
  Transition \<open>B\<close> comes after \<open>A\<close>, an InitialState declared after it.
\<close>

definition laterInitialSpec :: string where
  "laterInitialSpec = ''# B\<newline>[up](#A)\<newline>- x\<newline>```\<newline>b\<newline>```\<newline># A\<newline>\<newline>```\<newline>a\<newline>```\<newline>''"

text \<open>Two InitialState headers, \<open>A b\<close> with a space and with a tab.\<close>

definition tabSpec :: string where
  "tabSpec = ''# A b\<newline>\<newline>```\<newline>a\<newline>```\<newline># A'' @ [CHR 0x09] @ ''b\<newline>\<newline>```\<newline>a\<newline>```\<newline>''"

text \<open>
  Two InitialState headers, \<open>A b\<close> with one space and with two.
\<close>

definition spacesSpec :: string where
  "spacesSpec = ''# A b\<newline>\<newline>```\<newline>a\<newline>```\<newline># A  b\<newline>\<newline>```\<newline>a\<newline>```\<newline>''"

text \<open>An InitialState \<open>A\<close> and two Transitions, both titled \<open>A\<close> and coming after \<open>A\<close>.\<close>

definition duplicateSpec :: string where
  "duplicateSpec = ''# A\<newline>\<newline>```\<newline>a\<newline>```\<newline># A\<newline>[up](#A)\<newline>- x\<newline>```\<newline>b\<newline>```\<newline># A\<newline>[up](#A)\<newline>- y\<newline>```\<newline>c\<newline>```\<newline>''"

text \<open>
  The fenced block of the second entry is not closed.
\<close>

definition unfencedSpec :: string where
  "unfencedSpec = ''# A\<newline>\<newline>```\<newline>a\<newline>```\<newline># B\<newline>[up](#A)\<newline>- x\<newline>```\<newline>b\<newline>''"






section \<open>Properties of the matcher\<close>

lemma advance_Suc_Cons:
  "advance (Suc k) (MState p (c # cs) caps) = advance k (MState (Some c) cs caps)"
  by simp

lemma rest_advance [simp]: "rest (advance k st) = drop k (rest st)"
  by (induction k st rule: advance.induct) simp_all

lemma captures_advance [simp]: "captures (advance k st) = captures st"
  by (induction k st rule: advance.induct) simp_all

lemma lit_set:
  "set (lit cs (MState p s caps)) =
     (if take (length cs) s = cs then {advance (length cs) (MState p s caps)} else {})"
proof (induction cs arbitrary: p s)
  case Nil
  show ?case by simp
next
  case (Cons c cs)
  show ?case
  proof (cases s)
    case Nil
    then show ?thesis by simp
  next
    case (Cons d ds)
    show ?thesis
    proof (cases "c = d")
      case True
      then show ?thesis unfolding Cons by (simp add: Cons.IH)
    next
      case False
      then show ?thesis unfolding Cons by simp
    qed
  qed
qed

lemma upto_Suc_image:
  "{f k | k. k \<le> Suc n} = insert (f 0) {f (Suc k) | k. k \<le> (n::nat)}"
proof (intro set_eqI iffI)
  fix x assume "x \<in> {f k | k. k \<le> Suc n}"
  then obtain k where k: "x = f k" "k \<le> Suc n" by blast
  show "x \<in> insert (f 0) {f (Suc k) | k. k \<le> n}"
  proof (cases k)
    case 0
    with k show ?thesis by simp
  next
    case (Suc j)
    with k have "x = f (Suc j)" "j \<le> n" by simp_all
    then show ?thesis by blast
  qed
next
  fix x assume "x \<in> insert (f 0) {f (Suc k) | k. k \<le> n}"
  then consider "x = f 0" | k where "x = f (Suc k)" "k \<le> n" by blast
  then show "x \<in> {f k | k. k \<le> Suc n}"
  proof cases
    case 1
    then show ?thesis by blast
  next
    case 2
    then have "x = f (Suc k)" "Suc k \<le> Suc n" by simp_all
    then show ?thesis by blast
  qed
qed

lemma star_cls_Nil: "rx_match (Star g (Cls P)) (MState p [] caps) = [MState p [] caps]"
  by (subst rx_match.simps(5)) (simp add: Let_def)

lemma star_cls_Cons:
  "rx_match (Star g (Cls P)) (MState p (c # cs) caps) =
     (if P c
      then (if g then rx_match (Star g (Cls P)) (MState (Some c) cs caps) @ [MState p (c # cs) caps]
            else MState p (c # cs) caps # rx_match (Star g (Cls P)) (MState (Some c) cs caps))
      else [MState p (c # cs) caps])"
  by (subst rx_match.simps(5)) (simp add: Let_def)

lemma star_cls_set:
  "set (rx_match (Star g (Cls P)) (MState p s caps)) =
     {advance k (MState p s caps) | k. k \<le> length (takeWhile P s)}"
proof (induction s arbitrary: p)
  case Nil
  show ?case by (simp add: star_cls_Nil)
next
  case (Cons c cs)
  show ?case
  proof (cases "P c")
    case False
    then show ?thesis by (simp add: star_cls_Cons)
  next
    case True
    have "set (rx_match (Star g (Cls P)) (MState p (c # cs) caps)) =
          insert (MState p (c # cs) caps) (set (rx_match (Star g (Cls P)) (MState (Some c) cs caps)))"
      using True by (simp add: star_cls_Cons)
    also have "\<dots> = insert (advance 0 (MState p (c # cs) caps))
          {advance (Suc k) (MState p (c # cs) caps) | k. k \<le> length (takeWhile P cs)}"
      unfolding Cons.IH by simp
    also have "\<dots> = {advance k (MState p (c # cs) caps) | k. k \<le> Suc (length (takeWhile P cs))}"
      by (rule upto_Suc_image[symmetric])
    finally show ?thesis using True by simp
  qed
qed

lemma set_lit:
  "set (lit cs st) =
     (if take (length cs) (rest st) = cs then {advance (length cs) st} else {})"
  by (cases st) (simp add: lit_set)

lemma set_eol: "set (rx_match (Eol False) st) = (if rest st = [] then {st} else {})"
  by (cases st) (simp split: list.splits)

lemma set_bol: "set (rx_match (Bol False) st) = (if prev st = None then {st} else {})"
  by (cases st) (simp split: option.splits)

lemma rest_setCapture [simp]: "rest (setCapture n st st') = rest st'"
  by (simp add: setCapture_def)

lemma captures_setCapture [simp]:
  "captures (setCapture n st st') =
     (captures st')[n := Some (take (length (rest st) - length (rest st')) (rest st))]"
  by (simp add: setCapture_def)

lemma lit_sound:
  "st' \<in> set (lit cs st) \<Longrightarrow> rest st = cs @ rest st' \<and> captures st' = captures st"
  by (auto simp: set_lit split: if_splits) (metis append_take_drop_id)

lemma lit_complete: "rest st = cs @ t \<Longrightarrow> lit cs st = [advance (length cs) st]"
proof (induction cs st rule: lit.induct)
  case (1 st)
  then show ?case by simp
next
  case (2 c cs p caps)
  then show ?case by simp
next
  case (3 c cs p d ds caps)
  then show ?case by simp
qed

lemma capture_text: "rest st = cs @ rest st' \<Longrightarrow>
  captures (setCapture n st st') = (captures st')[n := Some cs]"
  by simp

lemma flagTail_sound:
  assumes "st' \<in> set (rx_match flagTail st)"
  shows "\<exists>v. (v = ''caret'' \<or> v = ''character'') \<and> rest st = ''.behavior <- '' @ v \<and>
             rest st' = [] \<and>
             captures st' = (captures st)[2 := Some ''behavior'', 3 := Some v]"
proof -
  from assms obtain s1 s2 s3 s4 where
    s1: "s1 \<in> set (lit ''.'' st)" and
    s2: "s2 \<in> set (lit ''behavior'' s1)" and
    s3: "s3 \<in> set (lit '' <- '' (setCapture 2 s1 s2))" and
    s4: "s4 \<in> set (lit ''caret'' s3) \<or> s4 \<in> set (lit ''character'' s3)" and
    e: "rest s4 = []" and st': "st' = setCapture 3 s3 s4"
    by (auto simp: flagTail_def set_eol split: if_splits)
  from s4 obtain v where v: "v = ''caret'' \<or> v = ''character''" and s4': "s4 \<in> set (lit v s3)"
    by blast
  from lit_sound[OF s1] have r1: "rest st = ''.'' @ rest s1" and c1: "captures s1 = captures st"
    by simp_all
  from lit_sound[OF s2] have r2: "rest s1 = ''behavior'' @ rest s2" and c2: "captures s2 = captures s1"
    by simp_all
  from lit_sound[OF s3] have r3: "rest s2 = '' <- '' @ rest s3"
    and c3: "captures s3 = captures (setCapture 2 s1 s2)"
    by simp_all
  from lit_sound[OF s4'] e have r4: "rest s3 = v" and c4: "captures s4 = captures s3"
    by simp_all
  from r4 e have r4': "rest s3 = v @ rest s4" by simp
  have "captures st' = (captures st)[2 := Some ''behavior'', 3 := Some v]"
    unfolding st' capture_text[OF r4'] c4 c3 capture_text[OF r2] c2 c1 ..
  moreover have "rest st = ''.behavior <- '' @ v"
    unfolding r1 r2 r3 r4 by simp
  moreover have "rest st' = []" unfolding st' using e by simp
  ultimately show ?thesis using v by blast
qed

lemma flagTail_complete:
  assumes "rest st = ''.behavior <- '' @ v" and "v = ''caret'' \<or> v = ''character''"
  shows "rx_match flagTail st \<noteq> []"
proof -
  have "set (rx_match flagTail st) \<noteq> {}"
    using assms by (auto simp: flagTail_def set_lit set_eol)
  then show ?thesis by simp
qed

lemma cls_plus_sound:
  assumes "m \<in> set (rx_match (Plus g (Cls P)) st)"
  shows "\<exists>k. 0 < k \<and> k \<le> length (takeWhile P (rest st)) \<and> rest m = drop k (rest st) \<and>
             captures m = captures st"
proof -
  obtain p s caps where st: "st = MState p s caps" by (cases st)
  from assms obtain c cs where s: "s = c # cs" and c: "P c"
    and m: "m \<in> set (rx_match (Star g (Cls P)) (MState (Some c) cs caps))"
    unfolding st by (auto split: list.splits if_splits)
  from m obtain k where k: "k \<le> length (takeWhile P cs)" and mk: "m = advance k (MState (Some c) cs caps)"
    unfolding star_cls_set by blast
  have "0 < Suc k \<and> Suc k \<le> length (takeWhile P (rest st)) \<and> rest m = drop (Suc k) (rest st) \<and>
        captures m = captures st"
    unfolding st s mk using c k by simp
  then show ?thesis by blast
qed

lemma cls_plus_complete:
  assumes "0 < k" and "k \<le> length (takeWhile P (rest st))"
  shows "advance k st \<in> set (rx_match (Plus g (Cls P)) st)"
proof -
  obtain p s caps where st: "st = MState p s caps" by (cases st)
  from assms obtain j where j: "k = Suc j" by (cases k) auto
  from assms have "s \<noteq> []" unfolding st by auto
  then obtain c cs where s: "s = c # cs" by (cases s) auto
  from assms have c: "P c" unfolding st s by (auto split: if_splits)
  with assms(2) have "j \<le> length (takeWhile P cs)" unfolding st s j by simp
  then have "advance j (MState (Some c) cs caps) \<in> set (rx_match (Star g (Cls P)) (MState (Some c) cs caps))"
    unfolding star_cls_set by blast
  then show ?thesis unfolding st s j using c by simp
qed

lemma flagRe_unfold:
  "flagRe = Seq (Bol False) (Seq (Grp 1 (Plus True (Cls isWord))) flagTail)"
  by (simp add: flagRe_def flagTail_def)

lemma not_isWord_dot: "\<not> isWord CHR ''.''"
  by (simp add: isWord_def)

lemma flagRe_sound:
  assumes "st' \<in> set (rx_match (Grp 0 flagRe) (MState None f (replicate 4 None)))"
  shows "\<exists>scope v. scope \<noteq> [] \<and> list_all isWord scope \<and> (v = ''caret'' \<or> v = ''character'') \<and>
           f = scope @ ''.behavior <- '' @ v \<and>
           captures st' = [Some f, Some scope, Some ''behavior'', Some v]"
proof -
  let ?st0 = "MState None f (replicate 4 None)"
  from assms obtain m t where
    m: "m \<in> set (rx_match (Plus True (Cls isWord)) ?st0)" and
    t: "t \<in> set (rx_match flagTail (setCapture 1 ?st0 m))" and
    st': "st' = setCapture 0 ?st0 t"
    unfolding flagRe_unfold by auto
  from cls_plus_sound[OF m] obtain k where k: "0 < k" "k \<le> length (takeWhile isWord f)"
    and rm: "rest m = drop k f" and cm: "captures m = replicate 4 None"
    by auto
  from flagTail_sound[OF t] obtain v where v: "v = ''caret'' \<or> v = ''character''"
    and rv': "rest (setCapture 1 ?st0 m) = ''.behavior <- '' @ v" and rt: "rest t = []"
    and ct: "captures t = (captures (setCapture 1 ?st0 m))[2 := Some ''behavior'', 3 := Some v]"
    by blast
  from rv' rm have rv: "drop k f = ''.behavior <- '' @ v" by simp
  let ?scope = "take k f"
  have kl: "k \<le> length f" using k(2) length_takeWhile_le[of isWord f] by simp
  have f: "f = ?scope @ ''.behavior <- '' @ v" using rv append_take_drop_id[of k f] by simp
  have sc: "?scope \<noteq> []" using k kl by auto
  have "?scope = take k (takeWhile isWord f)"
    using k(2) by (metis takeWhile_dropWhile_id take_append diff_is_0_eq' take_0 append_Nil2)
  then have "set ?scope \<subseteq> set (takeWhile isWord f)" by (metis set_take_subset)
  then have w: "list_all isWord ?scope" by (auto simp: list_all_iff dest: set_takeWhileD)
  have c1: "captures (setCapture 1 ?st0 m) = (replicate 4 None)[1 := Some ?scope]"
    using cm rm kl by simp
  have "captures st' = [Some f, Some ?scope, Some ''behavior'', Some v]"
    using rt kl by (simp add: st' ct cm rm numeral_eq_Suc)
  with sc w v f show ?thesis by blast
qed

lemma flagGrammar_unique:
  assumes "flagGrammar flag scope v" and "flagGrammar flag scope' v'"
  shows "scope' = scope \<and> v' = v"
proof -
  have tw: "takeWhile isWord (sc @ ''.behavior <- '' @ w) = sc" if "list_all isWord sc" for sc w
    using that by (simp add: takeWhile_append2 list_all_iff not_isWord_dot)
  from assms(1) have "takeWhile isWord flag = scope"
    unfolding flagGrammar_def using tw[of scope v] by simp
  moreover from assms(2) have "takeWhile isWord flag = scope'"
    unfolding flagGrammar_def using tw[of scope' v'] by simp
  ultimately have s: "scope' = scope" by simp
  with assms have "scope @ ''.behavior <- '' @ v = scope @ ''.behavior <- '' @ v'"
    unfolding flagGrammar_def by simp
  with s show ?thesis by simp
qed

lemma mem_seq:
  "m \<in> set (rx_match a st) \<Longrightarrow> t \<in> set (rx_match b m) \<Longrightarrow> t \<in> set (rx_match (Seq a b) st)"
  by auto

lemma mem_grp: "m \<in> set (rx_match r st) \<Longrightarrow> setCapture n st m \<in> set (rx_match (Grp n r) st)"
  by auto

lemma flagRe_complete:
  assumes "flagGrammar flag scope v"
  shows "rx_match (Grp 0 flagRe) (MState None flag (replicate 4 None)) \<noteq> []"
proof -
  let ?st0 = "MState None flag (replicate 4 None)"
  let ?k = "length scope"
  from assms have f: "flag = scope @ ''.behavior <- '' @ v" and ne: "scope \<noteq> []"
    and w: "list_all isWord scope" and v: "v = ''caret'' \<or> v = ''character''"
    unfolding flagGrammar_def by simp_all
  have tw: "takeWhile isWord flag = scope"
    unfolding f using w by (simp add: takeWhile_append2 list_all_iff not_isWord_dot)
  have "advance ?k ?st0 \<in> set (rx_match (Plus True (Cls isWord)) ?st0)"
    by (rule cls_plus_complete) (use ne tw in simp_all)
  moreover have "rest (setCapture 1 ?st0 (advance ?k ?st0)) = ''.behavior <- '' @ v"
    unfolding f by simp
  from flagTail_complete[OF this v]
  have "hd (rx_match flagTail (setCapture 1 ?st0 (advance ?k ?st0)))
         \<in> set (rx_match flagTail (setCapture 1 ?st0 (advance ?k ?st0)))" by simp
  ultimately obtain t where
    "t \<in> set (rx_match (Seq (Grp 1 (Plus True (Cls isWord))) flagTail) ?st0)"
    using mem_seq[OF mem_grp] by blast
  moreover have "?st0 \<in> set (rx_match (Bol False) ?st0)" by simp
  ultimately have "setCapture 0 ?st0 t \<in> set (rx_match (Grp 0 flagRe) ?st0)"
    unfolding flagRe_unfold using mem_grp[OF mem_seq] by blast
  then show ?thesis by auto
qed

lemma search_flagRe_later: "search flagRe n (Some c) s = None"
  by (induction s arbitrary: c) (simp_all add: flagRe_unfold)

lemma exec_flagRe_Some:
  assumes "flagGrammar flag scope v"
  shows "exec flagRe 3 flag = Some [Some flag, Some scope, Some ''behavior'', Some v]"
proof -
  let ?st0 = "MState None flag (replicate 4 None)"
  from flagRe_complete[OF assms] obtain st sts where m: "rx_match (Grp 0 flagRe) ?st0 = st # sts"
    by (cases "rx_match (Grp 0 flagRe) ?st0") auto
  then have "st \<in> set (rx_match (Grp 0 flagRe) ?st0)" by simp
  from flagRe_sound[OF this] obtain scope' v' where "flagGrammar flag scope' v'"
    and c: "captures st = [Some flag, Some scope', Some ''behavior'', Some v']"
    unfolding flagGrammar_def by blast
  with flagGrammar_unique[OF assms this(1)]
  have c': "captures st = [Some flag, Some scope, Some ''behavior'', Some v]" by simp
  have r: "replicate (Suc 3) None = replicate 4 (None :: string option)" by (simp add: numeral_eq_Suc)
  show ?thesis
  proof (cases flag)
    case Nil
    with assms show ?thesis by (simp add: flagGrammar_def)
  next
    case (Cons a as)
    from m have "rx_match (Grp 0 flagRe) (MState None (a # as) (replicate (Suc 3) None)) = st # sts"
      unfolding r Cons .
    then have "search flagRe 3 None flag = Some (flag, st)" unfolding Cons by simp
    then show ?thesis by (simp add: exec_def c')
  qed
qed

lemma exec_flagRe_None:
  assumes "\<nexists>scope v. flagGrammar flag scope v"
  shows "exec flagRe 3 flag = None"
proof -
  let ?st0 = "MState None flag (replicate 4 None)"
  have r: "replicate (Suc 3) None = replicate 4 (None :: string option)" by (simp add: numeral_eq_Suc)
  have e: "rx_match (Grp 0 flagRe) ?st0 = []"
  proof (rule ccontr)
    assume "rx_match (Grp 0 flagRe) ?st0 \<noteq> []"
    then have "hd (rx_match (Grp 0 flagRe) ?st0) \<in> set (rx_match (Grp 0 flagRe) ?st0)"
      by (rule hd_in_set)
    from flagRe_sound[OF this] assms show False unfolding flagGrammar_def by blast
  qed
  have "search flagRe 3 None flag = None"
  proof (cases flag)
    case Nil
    with e show ?thesis by (simp only: search.simps r list.case)
  next
    case (Cons a as)
    with e show ?thesis by (simp only: search.simps r list.case search_flagRe_later)
  qed
  then show ?thesis by (simp add: exec_def)
qed

lemma bol_rest: "m \<in> set (rx_match (Bol b) st) \<Longrightarrow> m = st"
  by (cases st) (auto split: option.splits if_splits)

lemma bol_lit_progress:
  assumes "st' \<in> set (rx_match (Seq (Bol b) (Seq (Lit (c # cs)) r)) st)"
  shows "length (rest st') < length (rest st)"
proof -
  from assms obtain m1 m2 where "m1 \<in> set (rx_match (Bol b) st)"
    and m2: "m2 \<in> set (lit (c # cs) m1)" and s: "st' \<in> set (rx_match r m2)"
    by auto
  from bol_rest[OF this(1)] m2 have "m2 \<in> set (lit (c # cs) st)" by simp
  from lit_sound[OF this] have "length (rest m2) < length (rest st)" by simp
  with rx_match_length[OF s] show ?thesis by simp
qed

lemma grp_progress:
  "(\<And>st'. st' \<in> set (rx_match r st) \<Longrightarrow> length (rest st') < length (rest st)) \<Longrightarrow>
   st' \<in> set (rx_match (Grp n r) st) \<Longrightarrow> length (rest st') < length (rest st)"
  by auto

lemma re_progress:
  "st' \<in> set (rx_match re st) \<Longrightarrow> length (rest st') < length (rest st)"
  unfolding re_def seqs.simps by (rule bol_lit_progress)

lemma flagLineRe_progress:
  "st' \<in> set (rx_match flagLineRe st) \<Longrightarrow> length (rest st') < length (rest st)"
  unfolding flagLineRe_def seqs.simps by (rule bol_lit_progress)

lemma headerRe_progress:
  "st' \<in> set (rx_match headerRe st) \<Longrightarrow> length (rest st') < length (rest st)"
proof -
  assume "st' \<in> set (rx_match headerRe st)"
  then have "st' \<in> set (rx_match (Seq (Bol True) (Seq (Lit ''# '') (Lit []))) st)"
    by (simp add: headerRe_def)
  then show ?thesis by (rule bol_lit_progress)
qed

lemma opre_progress:
  assumes "st' \<in> set (rx_match opre st)"
  shows "length (rest st') < length (rest st)"
proof -
  from assms have
    "st' \<in> set (rx_match (seqs [Bol True, Lit ''-'', Star True (Lit '' ''),
                     Grp 1 (Plus True (Cls (\<lambda>c. isWord c \<or> c = CHR ''.'' \<or> c = CHR '':''))),
                     Opt (Grp 2 (Seq (Plus True (Lit '' '')) (Plus True Dot))), Eol True]) st) \<or>
     st' \<in> set (rx_match (seqs [Bol True, Lit ''>'', Star True (Lit '' ''), Grp 3 (Plus True Dot),
                     Eol True]) st)"
    unfolding opre_def rx_match.simps(4) set_append Un_iff .
  then show ?thesis
    unfolding seqs.simps using bol_lit_progress by blast
qed

lemma search_progress:
  assumes "\<And>st st'. st' \<in> set (rx_match r st) \<Longrightarrow> length (rest st') < length (rest st)"
  shows "search r n p s = Some (s0, st) \<Longrightarrow> length (rest st) < length s0"
proof (induction s arbitrary: p)
  case Nil
  then obtain sts where m: "rx_match (Grp 0 r) (MState p [] (replicate (Suc n) None)) = st # sts"
    by (auto split: list.splits)
  then have "st \<in> set (rx_match (Grp 0 r) (MState p [] (replicate (Suc n) None)))" by simp
  then obtain m' where "m' \<in> set (rx_match r (MState p [] (replicate (Suc n) None)))" by auto
  from assms[OF this] show ?case by simp
next
  case (Cons c cs)
  show ?case
  proof (cases "rx_match (Grp 0 r) (MState p (c # cs) (replicate (Suc n) None))")
    case Nil
    with Cons.prems have "search r n (Some c) cs = Some (s0, st)" by simp
    from Cons.IH[OF this] show ?thesis .
  next
    case (Cons a as)
    with Cons.prems have e: "s0 = c # cs" "a = st" by auto
    with Cons have "st \<in> set (rx_match (Grp 0 r) (MState p (c # cs) (replicate (Suc n) None)))"
      by simp
    then obtain m' where "m' \<in> set (rx_match r (MState p (c # cs) (replicate (Suc n) None)))"
      and "st = setCapture 0 (MState p (c # cs) (replicate (Suc n) None)) m'" by auto
    with assms[OF this(1)] e show ?thesis by simp
  qed
qed

lemma execAll_matches_nonempty:
  assumes "r = re \<or> r = opre \<or> r = flagLineRe \<or> r = headerRe"
    and "search r n p s = Some (s0, st)"
  shows "length (rest st) < length s0"
  using assms(1) search_progress[OF _ assms(2)]
    re_progress opre_progress flagLineRe_progress headerRe_progress
  by blast

lemma lit_captures: "st' \<in> set (lit cs st) \<Longrightarrow> captures st' = captures st"
  using lit_sound by blast

lemma rx_match_captures:
  "st' \<in> set (rx_match r st) \<Longrightarrow>
   length (captures st') = length (captures st) \<and>
   (\<forall>k. captures st ! k \<noteq> None \<longrightarrow> k < length (captures st) \<longrightarrow> captures st' ! k \<noteq> None)"
proof (induction r st arbitrary: st' rule: rx_match.induct)
  case (1 cs st)
  then show ?case by (simp add: lit_captures)
next
  case (2 P p s caps)
  then show ?case by (auto split: list.splits if_splits)
next
  case (3 a b st)
  from "3.prems" obtain m where m: "m \<in> set (rx_match a st)" and s: "st' \<in> set (rx_match b m)"
    by auto
  from "3.IH"(1)[OF m] "3.IH"(2)[OF m s] show ?case by simp
next
  case (4 a b st)
  from "4.prems" have "st' \<in> set (rx_match a st) \<or> st' \<in> set (rx_match b st)" by simp
  with "4.IH" show ?case by blast
next
  case (5 g r st)
  from "5.prems" have "st' = st \<or> (\<exists>m \<in> set (rx_match r st).
      length (rest m) < length (rest st) \<and> st' \<in> set (rx_match (Star g r) m))"
    by (subst (asm) rx_match.simps(5)) (auto simp: Let_def split: if_splits)
  then show ?case
  proof
    assume "st' = st"
    then show ?thesis by simp
  next
    assume "\<exists>m \<in> set (rx_match r st).
      length (rest m) < length (rest st) \<and> st' \<in> set (rx_match (Star g r) m)"
    then obtain m where m: "m \<in> set (rx_match r st)" and l: "length (rest m) < length (rest st)"
      and s: "st' \<in> set (rx_match (Star g r) m)" by blast
    from "5.IH"(1)[OF m] "5.IH"(2)[OF m l s] show ?thesis by simp
  qed
next
  case (6 r st)
  from "6.prems" have "st' \<in> set (rx_match r st) \<or> st' = st" by auto
  with "6.IH" show ?case by auto
next
  case (7 n r st)
  from "7.prems" obtain m where m: "m \<in> set (rx_match r st)" and e: "st' = setCapture n st m"
    by auto
  from "7.IH"[OF m] have l: "length (captures m) = length (captures st)"
    and k: "\<And>k. captures st ! k \<noteq> None \<Longrightarrow> k < length (captures st) \<Longrightarrow> captures m ! k \<noteq> None"
    by simp_all
  have "captures st' ! k \<noteq> None" if "captures st ! k \<noteq> None" "k < length (captures st)" for k
  proof (cases "k = n")
    case True
    with that l show ?thesis unfolding e by simp
  next
    case False
    with k[OF that] show ?thesis unfolding e by simp
  qed
  with l show ?case unfolding e by simp
next
  case (8 m p s caps)
  then show ?case by (auto split: option.splits if_splits)
next
  case (9 m p s caps)
  then show ?case by (auto split: list.splits if_splits)
qed

lemma grp_defined:
  "st' \<in> set (rx_match (Grp n r) st) \<Longrightarrow> n < length (captures st) \<Longrightarrow>
   captures st' ! n \<noteq> None"
proof -
  assume a: "st' \<in> set (rx_match (Grp n r) st)" and n: "n < length (captures st)"
  then obtain m where m: "m \<in> set (rx_match r st)" and e: "st' = setCapture n st m" by auto
  from rx_match_captures[OF m] n show ?thesis unfolding e by simp
qed

lemma seq_grp_defined:
  assumes "st' \<in> set (rx_match (Seq (Grp n r) r') st)" and "n < length (captures st)"
  shows "captures st' ! n \<noteq> None"
proof -
  from assms(1) obtain m where m: "m \<in> set (rx_match (Grp n r) st)"
    and s: "st' \<in> set (rx_match r' m)" by auto
  from grp_defined[OF m assms(2)] rx_match_captures[OF m] rx_match_captures[OF s] assms(2)
  show ?thesis by simp
qed

lemma seq_split:
  "st' \<in> set (rx_match (Seq a b) st) \<Longrightarrow>
   \<exists>m. m \<in> set (rx_match a st) \<and> st' \<in> set (rx_match b m)"
  by auto

lemma list5: "length xs = 5 \<Longrightarrow> \<exists>a b c d e. xs = [a, b, c, d, e]"
  by (auto simp: numeral_eq_Suc length_Suc_conv)

lemma entry_shape:
  assumes "t \<in> set (rx_match (Seq b (Seq l1 (Seq (Grp 1 g1) (Seq l2 (Seq ob
              (Seq (Grp 3 g3) (Seq f1 (Seq (Grp 4 g4) f2)))))))) st)"
    and "length (captures st) = 5"
  shows "captures t ! 1 \<noteq> None \<and> captures t ! 3 \<noteq> None \<and> captures t ! 4 \<noteq> None \<and>
         length (captures t) = 5"
proof -
  from seq_split[OF assms(1)] obtain m1 where m1: "m1 \<in> set (rx_match b st)"
    and t1: "t \<in> set (rx_match (Seq l1 (Seq (Grp 1 g1) (Seq l2 (Seq ob
              (Seq (Grp 3 g3) (Seq f1 (Seq (Grp 4 g4) f2))))))) m1)" by blast
  from seq_split[OF t1] obtain m2 where m2: "m2 \<in> set (rx_match l1 m1)"
    and t2: "t \<in> set (rx_match (Seq (Grp 1 g1) (Seq l2 (Seq ob
              (Seq (Grp 3 g3) (Seq f1 (Seq (Grp 4 g4) f2)))))) m2)" by blast
  from rx_match_captures[OF m1] rx_match_captures[OF m2] assms(2)
  have c2: "length (captures m2) = 5" by simp
  from seq_grp_defined[OF t2] c2 have g1: "captures t ! 1 \<noteq> None" by simp
  from seq_split[OF t2] obtain m3 where m3: "m3 \<in> set (rx_match (Grp 1 g1) m2)"
    and t3: "t \<in> set (rx_match (Seq l2 (Seq ob
              (Seq (Grp 3 g3) (Seq f1 (Seq (Grp 4 g4) f2))))) m3)" by blast
  from seq_split[OF t3] obtain m4 where m4: "m4 \<in> set (rx_match l2 m3)"
    and t4: "t \<in> set (rx_match (Seq ob (Seq (Grp 3 g3) (Seq f1 (Seq (Grp 4 g4) f2)))) m4)"
    by blast
  from seq_split[OF t4] obtain m5 where m5: "m5 \<in> set (rx_match ob m4)"
    and t5: "t \<in> set (rx_match (Seq (Grp 3 g3) (Seq f1 (Seq (Grp 4 g4) f2))) m5)" by blast
  from rx_match_captures[OF m3] rx_match_captures[OF m4] rx_match_captures[OF m5] c2
  have c5: "length (captures m5) = 5" by simp
  from seq_grp_defined[OF t5] c5 have g3: "captures t ! 3 \<noteq> None" by simp
  from seq_split[OF t5] obtain m6 where m6: "m6 \<in> set (rx_match (Grp 3 g3) m5)"
    and t6: "t \<in> set (rx_match (Seq f1 (Seq (Grp 4 g4) f2)) m6)" by blast
  from seq_split[OF t6] obtain m7 where m7: "m7 \<in> set (rx_match f1 m6)"
    and t7: "t \<in> set (rx_match (Seq (Grp 4 g4) f2) m7)" by blast
  from rx_match_captures[OF m6] rx_match_captures[OF m7] c5
  have c7: "length (captures m7) = 5" by simp
  from seq_grp_defined[OF t7] c7 have g4: "captures t ! 4 \<noteq> None" by simp
  from rx_match_captures[OF t7] c7 have "length (captures t) = 5" by simp
  with g1 g3 g4 show ?thesis by simp
qed

lemma re_captures:
  assumes "st' \<in> set (rx_match (Grp 0 re) (MState p s (replicate 5 None)))"
  shows "\<exists>w h ca b c. captures st' = [Some w, Some h, ca, Some b, Some c]"
proof -
  let ?st0 = "MState p s (replicate 5 None)"
  from assms obtain t where t: "t \<in> set (rx_match re ?st0)" and e: "st' = setCapture 0 ?st0 t"
    by auto
  have "length (captures ?st0) = 5" by simp
  from entry_shape[OF t[unfolded re_def seqs.simps] this]
  have g: "captures t ! 1 \<noteq> None" "captures t ! 3 \<noteq> None" "captures t ! 4 \<noteq> None"
    and l: "length (captures t) = 5" by simp_all
  from list5[OF l] obtain a0 a1 a2 a3 a4 where c: "captures t = [a0, a1, a2, a3, a4]" by blast
  with g obtain h b cd where "a1 = Some h" "a3 = Some b" "a4 = Some cd"
    by (auto simp: numeral_eq_Suc)
  with c have "captures st' =
      [Some (take (length s - length (rest t)) s), Some h, a2, Some b, Some cd]"
    unfolding e by simp
  then show ?thesis by blast
qed

lemma execAllFrom_all:
  "(\<forall>p s s0 st. search r n p s = Some (s0, st) \<longrightarrow> P (captures st)) \<Longrightarrow>
   m \<in> set (execAllFrom r n p s) \<Longrightarrow> P m"
proof (induction r n p s rule: execAllFrom.induct)
  case (1 re n p s)
  note h = "1.prems"(1)
  note a = "1.prems"(2)[unfolded execAllFrom.simps[of re n p s]]
  show ?case
  proof (cases "search re n p s")
    case None
    with a show ?thesis by simp
  next
    case (Some x)
    obtain s0 st where x: "x = (s0, st)" by (cases x)
    note f = Some[unfolded x]
    show ?thesis
    proof (cases "m = captures st")
      case True
      with h f show ?thesis by blast
    next
      case False
      show ?thesis
      proof (cases "length (rest st) < length s0")
        case True
        with a f False have "m \<in> set (execAllFrom re n (prev st) (rest st))" by simp
        from "1.IH"(1)[OF f refl True h this] show ?thesis .
      next
        case l: False
        show ?thesis
        proof (cases "rest st")
          case Nil
          with a f False l show ?thesis by simp
        next
          case (Cons c cs)
          with a f False l have "m \<in> set (execAllFrom re n (Some c) cs)" by simp
          from "1.IH"(2)[OF f refl l Cons h this] show ?thesis .
        qed
      qed
    qed
  qed
qed

lemma search_mem:
  "search r n p s = Some (s0, st) \<Longrightarrow>
   \<exists>p' s'. st \<in> set (rx_match (Grp 0 r) (MState p' s' (replicate (Suc n) None)))"
proof (induction r n p s rule: search.induct)
  case (1 re n p)
  show ?case
  proof (cases "rx_match (Grp 0 re) (MState p [] (replicate (Suc n) None))")
    case Nil
    with 1 show ?thesis by simp
  next
    case (Cons a as)
    with "1.prems" have "st = a" by simp
    with Cons have "st \<in> set (rx_match (Grp 0 re) (MState p [] (replicate (Suc n) None)))"
      by simp
    then show ?thesis by blast
  qed
next
  case (2 re n p c cs)
  show ?case
  proof (cases "rx_match (Grp 0 re) (MState p (c # cs) (replicate (Suc n) None))")
    case Nil
    with 2 show ?thesis by simp
  next
    case (Cons a as)
    with "2.prems" have "st = a" by simp
    with Cons have "st \<in> set (rx_match (Grp 0 re) (MState p (c # cs) (replicate (Suc n) None)))"
      by simp
    then show ?thesis by blast
  qed
qed

section \<open>Properties of the parser\<close>

lemma checkInitial_Inr:
  "checkInitial ds ex = Inr ex' \<longleftrightarrow>
     distinct (map title ds) \<and> set (map title ds) \<inter> ex = {} \<and> ex' = ex \<union> set (map title ds)"
  by (induction ds arbitrary: ex) auto

lemma checkInitial_Inl:
  "checkInitial ds ex = Inl e \<Longrightarrow> \<exists>d \<in> set ds. e = AssertionError (initialMessage (title d))"
  by (induction ds arbitrary: ex) (auto split: if_splits)

lemma checkInitial_first_duplicate:
  "distinct (map title ds1) \<Longrightarrow> set (map title ds1) \<inter> ex = {} \<Longrightarrow>
   title d \<in> ex \<union> set (map title ds1) \<Longrightarrow>
   checkInitial (ds1 @ d # ds2) ex = Inl (AssertionError (initialMessage (title d)))"
  by (induction ds1 arbitrary: ex) auto

lemma checkTests_Inr:
  "checkTests ts ex = Inr ex' \<longleftrightarrow>
     (\<forall>i < length ts. comesAfter (ts ! i) \<in> ex \<union> title ` set (take i ts)) \<and>
     ex' = ex \<union> title ` set ts"
proof (induction ts arbitrary: ex)
  case Nil
  then show ?case by auto
next
  case (Cons t ts)
  have *: "(\<forall>i < length (t # ts). comesAfter ((t # ts) ! i) \<in> ex \<union> title ` set (take i (t # ts))) \<longleftrightarrow>
        comesAfter t \<in> ex \<and> (\<forall>i < length ts. comesAfter (ts ! i) \<in> insert (title t) ex \<union> title ` set (take i ts))"
    (is "?L \<longleftrightarrow> ?R")
  proof
    assume l: ?L
    from l[rule_format, of 0] have a: "comesAfter t \<in> ex" by simp
    have "\<forall>i < length ts. comesAfter (ts ! i) \<in> insert (title t) ex \<union> title ` set (take i ts)"
    proof (intro allI impI)
      fix i assume "i < length ts"
      with l[rule_format, of "Suc i"] show "comesAfter (ts ! i) \<in> insert (title t) ex \<union> title ` set (take i ts)"
        by auto
    qed
    with a show ?R by simp
  next
    assume r: ?R
    show ?L
    proof (intro allI impI)
      fix i assume i: "i < length (t # ts)"
      show "comesAfter ((t # ts) ! i) \<in> ex \<union> title ` set (take i (t # ts))"
      proof (cases i)
        case 0
        with r show ?thesis by simp
      next
        case (Suc k)
        with i r have "comesAfter (ts ! k) \<in> insert (title t) ex \<union> title ` set (take k ts)" by simp
        with Suc show ?thesis by auto
      qed
    qed
  qed
  show ?case
    unfolding * using Cons.IH[of "insert (title t) ex"] by auto
qed

lemma checkTests_first_unknown:
  "\<forall>i < length pre. comesAfter (pre ! i) \<in> ex \<union> title ` set (take i pre) \<Longrightarrow>
   comesAfter t \<notin> ex \<union> title ` set pre \<Longrightarrow>
   checkTests (pre @ t # post) ex = Inl (AssertionError (unknownMessage (title t) (comesAfter t)))"
proof (induction pre arbitrary: ex)
  case Nil
  then show ?case by simp
next
  case (Cons p pre)
  from Cons.prems(1)[rule_format, of 0] have a: "comesAfter p \<in> ex" by simp
  have b: "\<forall>i < length pre. comesAfter (pre ! i) \<in> insert (title p) ex \<union> title ` set (take i pre)"
  proof (intro allI impI)
    fix i assume "i < length pre"
    with Cons.prems(1)[rule_format, of "Suc i"]
    show "comesAfter (pre ! i) \<in> insert (title p) ex \<union> title ` set (take i pre)" by auto
  qed
  from Cons.prems(2) have c: "comesAfter t \<notin> insert (title p) ex \<union> title ` set pre" by auto
  from Cons.IH[OF b c] a show ?case by simp
qed

lemma checkTests_unknown_rejected:
  "comesAfter t \<notin> ex \<union> title ` set pre \<Longrightarrow> \<exists>e. checkTests (pre @ t # post) ex = Inl e"
proof (induction pre arbitrary: ex)
  case Nil
  then show ?case by simp
next
  case (Cons p pre)
  from Cons.prems have "comesAfter t \<notin> insert (title p) ex \<union> title ` set pre" by auto
  from Cons.IH[OF this] show ?case by simp
qed

lemma replaceSpaces_eq:
  "list_all2 (\<lambda>x y. x = y \<or> (isSpace x \<and> isSpace y)) a b \<Longrightarrow> replaceSpaces a = replaceSpaces b"
  by (induction a b rule: list_all2_induct) (auto simp: replaceSpaces_def)

lemma parseMarkdownTests_cases:
  "parseEntries contents = (initial, ts) \<Longrightarrow>
   parseMarkdownTests contents =
     (if length (execAll headerRe 0 contents) \<noteq> length ts + length initial
      then Inl (AssertionError ''not all tests were parsed'')
      else (case checkInitial initial {} of
              Inl e \<Rightarrow> Inl e
            | Inr exists \<Rightarrow>
                (case checkTests ts exists of
                   Inl e \<Rightarrow> Inl e
                 | Inr exists' \<Rightarrow> Inr \<lparr>setups = initial, tests = ts\<rparr>)))"
  by (simp add: parseMarkdownTests_def)


lemma parseEntry_acc:
  "parseEntry m (a, b) = (a @ fst (parseEntry m ([], [])), b @ snd (parseEntry m ([], [])))"
  by (induction m "(a, b)" rule: parseEntry.induct)
     (auto simp: Let_def split: option.splits prod.splits)

lemma parseEntries_fold:
  "foldl (\<lambda>acc m. parseEntry m acc) (a, b) ms =
     (a @ concat (map (\<lambda>m. fst (parseEntry m ([], []))) ms),
      b @ concat (map (\<lambda>m. snd (parseEntry m ([], []))) ms))"
proof (induction ms arbitrary: a b)
  case Nil
  then show ?case by simp
next
  case (Cons m ms)
  show ?case
    by (simp only: foldl_Cons) (subst parseEntry_acc, simp add: Cons.IH)
qed

lemma parseEntry_initial:
  "fst (parseEntry [w, Some h, None, Some b, Some c] ([], [])) =
     [\<lparr>title = replaceSpaces h, flags = map (\<lambda>g. the (g ! 1)) (execAll flagLineRe 1 b), code = c\<rparr>]"
  by (simp add: Let_def)

lemma execAll_re_shape:
  assumes "m \<in> set (execAll re 4 contents)"
  shows "\<exists>w h ca b c. m = [Some w, Some h, ca, Some b, Some c]"
proof -
  have "\<exists>w h ca b c. captures st = [Some w, Some h, ca, Some b, Some c]"
    if "search re 4 p s = Some (s0, st)" for p s s0 st
  proof -
    from search_mem[OF that] obtain p' s' where
      "st \<in> set (rx_match (Grp 0 re) (MState p' s' (replicate 5 None)))"
      by (auto simp: numeral_eq_Suc)
    from re_captures[OF this] show ?thesis .
  qed
  then have "\<forall>p s s0 st. search re 4 p s = Some (s0, st) \<longrightarrow>
      (\<exists>w h ca b c. captures st = [Some w, Some h, ca, Some b, Some c])" by blast
  from execAllFrom_all[of re 4 "\<lambda>m. \<exists>w h ca b c. m = [Some w, Some h, ca, Some b, Some c]",
      OF this assms[unfolded execAll_def]]
  show ?thesis .
qed

lemma parseEntry_count:
  "length (fst (parseEntry [Some w, Some h, ca, Some b, Some c] acc)) +
   length (snd (parseEntry [Some w, Some h, ca, Some b, Some c] acc)) =
   Suc (length (fst acc) + length (snd acc))"
  by (cases acc) (simp add: Let_def split: option.splits prod.splits)

lemma foldl_parseEntry_count:
  "\<forall>m \<in> set ms. \<exists>w h ca b c. m = [Some w, Some h, ca, Some b, Some c] \<Longrightarrow>
   length (fst (foldl (\<lambda>acc m. parseEntry m acc) acc ms)) +
   length (snd (foldl (\<lambda>acc m. parseEntry m acc) acc ms)) =
   length ms + (length (fst acc) + length (snd acc))"
proof (induction ms arbitrary: acc)
  case Nil
  then show ?case by simp
next
  case (Cons m ms)
  from Cons.prems obtain w h ca b c where m: "m = [Some w, Some h, ca, Some b, Some c]"
    by auto
  from Cons.prems have "\<forall>m \<in> set ms. \<exists>w h ca b c. m = [Some w, Some h, ca, Some b, Some c]"
    by simp
  from Cons.IH[OF this, of "parseEntry m acc"] parseEntry_count[of w h ca b c acc]
  show ?case unfolding m by simp
qed

lemma parseEntries_count:
  "length (fst (parseEntries contents)) + length (snd (parseEntries contents)) =
   length (execAll re 4 contents)"
proof -
  have "\<forall>m \<in> set (execAll re 4 contents). \<exists>w h ca b c. m = [Some w, Some h, ca, Some b, Some c]"
    using execAll_re_shape by blast
  from foldl_parseEntry_count[OF this, of "([], [])"] show ?thesis
    by (simp add: parseEntries_def)
qed

section \<open>Properties of the operation sequencer\<close>



lemma forFlags_Inr:
  "forFlags fs acc = Inr res \<Longrightarrow>
   \<exists>svs. list_all2 (\<lambda>flag sv. flagGrammar flag (fst sv) (snd sv)) fs svs \<and>
         res = acc @ concat (map (\<lambda>sv. behaviorStep (fst sv) (snd sv)) svs)"
proof (induction fs arbitrary: acc)
  case Nil
  then show ?case by simp
next
  case (Cons flag fs)
  show ?case
  proof (cases "\<exists>scope v. flagGrammar flag scope v")
    case False
    then have "exec flagRe 3 flag = None" by (intro exec_flagRe_None) simp
    with Cons.prems show ?thesis by simp
  next
    case True
    then obtain scope v where g: "flagGrammar flag scope v" by blast
    from exec_flagRe_Some[OF g] Cons.prems
    have "forFlags fs (acc @ behaviorStep scope v) = Inr res" by simp
    from Cons.IH[OF this] obtain svs where
      l: "list_all2 (\<lambda>flag sv. flagGrammar flag (fst sv) (snd sv)) fs svs" and
      r: "res = (acc @ behaviorStep scope v) @ concat (map (\<lambda>sv. behaviorStep (fst sv) (snd sv)) svs)"
      by blast
    from g l have "list_all2 (\<lambda>flag sv. flagGrammar flag (fst sv) (snd sv)) (flag # fs) ((scope, v) # svs)"
      by simp
    moreover from r have "res = acc @ concat (map (\<lambda>sv. behaviorStep (fst sv) (snd sv)) ((scope, v) # svs))"
      by simp
    ultimately show ?thesis by blast
  qed
qed

lemma whileType_step:
  "i + 1 < length ops \<Longrightarrow> isTypeOp (ops ! (i + 1)) \<Longrightarrow>
   whileType ops i ps =
     whileType ops (i + 1) (ps @ [typePromise (charAt (command (ops ! (i + 1))) 5) (length ps * 20)])"
  by (subst whileType.simps) (simp add: isTypeOp_def)

lemma whileType_stop:
  "\<not> (i + 1 < length ops \<and> isTypeOp (ops ! (i + 1))) \<Longrightarrow> whileType ops i ps = (i, ps)"
  by (subst whileType.simps) (auto simp: isTypeOp_def)

lemma whileType_typed:
  "list_all isTypeOp typed \<Longrightarrow> xs = [] \<or> \<not> isTypeOp (hd xs) \<Longrightarrow> length pre = Suc i \<Longrightarrow>
   whileType (pre @ typed @ xs) i ps = (i + length typed, ps @ typedPromises (length ps) typed)"
proof (induction typed arbitrary: pre i ps)
  case Nil
  have "\<not> (i + 1 < length (pre @ xs) \<and> isTypeOp ((pre @ xs) ! (i + 1)))"
    using Nil.prems by (cases xs) (auto simp: nth_append)
  from whileType_stop[OF this] show ?case by simp
next
  case (Cons operation typed)
  have a: "i + 1 < length (pre @ (operation # typed) @ xs)" using Cons.prems by simp
  have n: "(pre @ (operation # typed) @ xs) ! (i + 1) = operation"
    using Cons.prems by (simp add: nth_append)
  have b: "isTypeOp ((pre @ (operation # typed) @ xs) ! (i + 1))"
    unfolding n using Cons.prems by simp
  have "whileType ((pre @ [operation]) @ typed @ xs) (Suc i)
          (ps @ [typePromise (charAt (command operation) 5) (length ps * 20)]) =
        (Suc i + length typed,
         (ps @ [typePromise (charAt (command operation) 5) (length ps * 20)]) @
          typedPromises (length (ps @ [typePromise (charAt (command operation) 5) (length ps * 20)])) typed)"
    by (rule Cons.IH) (use Cons.prems in simp_all)
  then show ?case
    unfolding whileType_step[OF a b] n by simp
qed

lemma whileType_shift:
  "whileType (pre @ xs) (length pre + i) ps =
     (case whileType xs i ps of (j, rs) \<Rightarrow> (length pre + j, rs))"
proof (induction xs i ps rule: whileType.induct)
  case (1 xs i ps)
  show ?case
  proof (cases "i + 1 < length xs \<and> isTypeOp (xs ! (i + 1))")
    case True
    then have a: "(length pre + i) + 1 < length (pre @ xs)"
      and b: "isTypeOp ((pre @ xs) ! ((length pre + i) + 1))"
      by (simp_all add: nth_append)
    have n: "(pre @ xs) ! ((length pre + i) + 1) = xs ! (i + 1)" by (simp add: nth_append)
    from True have c: "i + 1 < length xs \<and> startsWith (command (xs ! (i + 1))) ''type:''"
      by (simp add: isTypeOp_def)
    show ?thesis
      unfolding whileType_step[OF a b] n
      using "1.IH"[OF c] True by (simp add: whileType_step[of i xs] add.assoc)
  next
    case False
    then have "\<not> ((length pre + i) + 1 < length (pre @ xs) \<and>
                  isTypeOp ((pre @ xs) ! ((length pre + i) + 1)))"
      by (auto simp: nth_append)
    from whileType_stop[OF this] whileType_stop[OF False] show ?thesis by simp
  qed
qed

lemma whileType_cut:
  "i < length pre \<Longrightarrow> xs = [] \<or> \<not> isTypeOp (hd xs) \<Longrightarrow>
   whileType (pre @ xs) i ps = whileType pre i ps"
proof (induction pre i ps rule: whileType.induct)
  case (1 pre i ps)
  show ?case
  proof (cases "i + 1 < length pre")
    case True
    then have n: "(pre @ xs) ! (i + 1) = pre ! (i + 1)" by (simp add: nth_append)
    show ?thesis
    proof (cases "isTypeOp (pre ! (i + 1))")
      case t: True
      from True have a: "i + 1 < length (pre @ xs)" by simp
      from t n have b: "isTypeOp ((pre @ xs) ! (i + 1))" by simp
      from True t have c: "i + 1 < length pre \<and> startsWith (command (pre ! (i + 1))) ''type:''"
        by (simp add: isTypeOp_def)
      show ?thesis
        unfolding whileType_step[OF a b] whileType_step[OF True t] n
        using "1.IH"[OF c] True "1.prems" by simp
    next
      case False
      with n have "\<not> (i + 1 < length (pre @ xs) \<and> isTypeOp ((pre @ xs) ! (i + 1)))" by simp
      from whileType_stop[OF this] whileType_stop[of i pre ps] False show ?thesis by simp
    qed
  next
    case False
    with "1.prems" have l: "length pre = i + 1" by simp
    have "\<not> (i + 1 < length (pre @ xs) \<and> isTypeOp ((pre @ xs) ! (i + 1)))"
      using "1.prems"(2) l by (cases xs) (auto simp: nth_append)
    from whileType_stop[OF this] whileType_stop[of i pre ps] False show ?thesis by simp
  qed
qed

lemma whileType_bound:
  "i < length ops \<Longrightarrow> whileType ops i ps = (j, rs) \<Longrightarrow> j < length ops"
proof (induction ops i ps rule: whileType.induct)
  case (1 ops i ps)
  show ?case
  proof (cases "i + 1 < length ops \<and> isTypeOp (ops ! (i + 1))")
    case True
    then have c: "i + 1 < length ops \<and> startsWith (command (ops ! (i + 1))) ''type:''"
      by (simp add: isTypeOp_def)
    from True "1.prems"(2) have "whileType ops (i + 1)
        (ps @ [typePromise (charAt (command (ops ! (i + 1))) 5) (length ps * 20)]) = (j, rs)"
      by (simp add: whileType_step)
    from "1.IH"[OF c _ this] True show ?thesis by simp
  next
    case False
    from whileType_stop[OF this] "1.prems" show ?thesis by simp
  qed
qed

lemma forOperations_step:
  "i < length ops \<Longrightarrow> whileType ops i [invocation (ops ! i)] = (j, ps) \<Longrightarrow>
   forOperations ops i acc = forOperations ops (j + 1) (acc @ awaitStep ps)"
  by (subst forOperations.simps) simp

lemma forOperations_done: "\<not> i < length ops \<Longrightarrow> forOperations ops i acc = acc"
  by (subst forOperations.simps) simp

lemma forOperations_acc: "forOperations ops i acc = acc @ forOperations ops i []"
proof (induction "length ops - i" arbitrary: i acc rule: less_induct)
  case less
  show ?case
  proof (cases "i < length ops")
    case False
    then show ?thesis by (simp add: forOperations_done)
  next
    case True
    obtain j ps where w: "whileType ops i [invocation (ops ! i)] = (j, ps)" by force
    from whileType_index[OF w] True have d: "length ops - (j + 1) < length ops - i" by simp
    have "forOperations ops i acc = forOperations ops (j + 1) (acc @ awaitStep ps)"
      by (rule forOperations_step[OF True w])
    also have "\<dots> = (acc @ awaitStep ps) @ forOperations ops (j + 1) []"
      by (rule less.hyps[OF d])
    also have "\<dots> = acc @ forOperations ops (j + 1) ([] @ awaitStep ps)"
      using less.hyps[OF d, of "awaitStep ps"] by simp
    also have "\<dots> = acc @ forOperations ops i []"
      using forOperations_step[OF True w, of "[]"] by simp
    finally show ?thesis .
  qed
qed

lemma forOperations_shift:
  "forOperations (pre @ xs) (length pre + i) acc = forOperations xs i acc"
proof (induction "length xs - i" arbitrary: i acc rule: less_induct)
  case less
  show ?case
  proof (cases "i < length xs")
    case False
    then show ?thesis by (simp add: forOperations_done)
  next
    case True
    obtain j ps where w: "whileType xs i [invocation (xs ! i)] = (j, ps)" by force
    from whileType_index[OF w] True have d: "length xs - (j + 1) < length xs - i" by simp
    have w': "whileType (pre @ xs) (length pre + i) [invocation ((pre @ xs) ! (length pre + i))] =
              (length pre + j, ps)"
      unfolding whileType_shift using w by (simp add: nth_append)
    have t: "length pre + i < length (pre @ xs)" using True by simp
    have "forOperations (pre @ xs) (length pre + i) acc =
          forOperations (pre @ xs) (length pre + (j + 1)) (acc @ awaitStep ps)"
      using forOperations_step[OF t w'] by (simp add: add.assoc)
    also have "\<dots> = forOperations xs (j + 1) (acc @ awaitStep ps)"
      by (rule less.hyps[OF d])
    also have "\<dots> = forOperations xs i acc"
      using forOperations_step[OF True w] by simp
    finally show ?thesis .
  qed
qed

lemma forOperations_cut:
  "xs = [] \<or> \<not> isTypeOp (hd xs) \<Longrightarrow> i \<le> length pre \<Longrightarrow>
   forOperations (pre @ xs) i acc = forOperations (pre @ xs) (length pre) (forOperations pre i acc)"
proof (induction "length pre - i" arbitrary: i acc rule: less_induct)
  case less
  show ?case
  proof (cases "i < length pre")
    case False
    with less.prems have "i = length pre" by simp
    then show ?thesis by (simp add: forOperations_done)
  next
    case True
    obtain j ps where w: "whileType pre i [invocation (pre ! i)] = (j, ps)" by force
    from whileType_index[OF w] True have d: "length pre - (j + 1) < length pre - i" by simp
    from whileType_bound[OF True w] have b: "j + 1 \<le> length pre" by simp
    have w': "whileType (pre @ xs) i [invocation ((pre @ xs) ! i)] = (j, ps)"
      using whileType_cut[OF True less.prems(1)] w True by (simp add: nth_append)
    have t: "i < length (pre @ xs)" using True by simp
    have "forOperations (pre @ xs) i acc = forOperations (pre @ xs) (j + 1) (acc @ awaitStep ps)"
      by (rule forOperations_step[OF t w'])
    also have "\<dots> = forOperations (pre @ xs) (length pre) (forOperations pre (j + 1) (acc @ awaitStep ps))"
      by (rule less.hyps[OF d less.prems(1) b])
    also have "forOperations pre (j + 1) (acc @ awaitStep ps) = forOperations pre i acc"
      using forOperations_step[OF True w] by simp
    finally show ?thesis .
  qed
qed

lemma forOperations_group:
  assumes "list_all isTypeOp typed" and "xs = [] \<or> \<not> isTypeOp (hd xs)"
  shows "forOperations (operation # typed @ xs) 0 [] =
         awaitStep (invocation operation # typedPromises 1 typed) @ forOperations xs 0 []"
proof -
  have w: "whileType (operation # typed @ xs) 0 [invocation ((operation # typed @ xs) ! 0)] =
           (length typed, invocation operation # typedPromises 1 typed)"
    using whileType_typed[OF assms, of "[operation]" 0 "[invocation operation]"] by simp
  have "forOperations (operation # typed @ xs) 0 [] =
        forOperations ((operation # typed) @ xs) (length (operation # typed) + 0)
          (awaitStep (invocation operation # typedPromises 1 typed))"
    using forOperations_step[OF _ w, of "[]"] by simp
  also have "\<dots> = forOperations xs 0 (awaitStep (invocation operation # typedPromises 1 typed))"
    by (rule forOperations_shift)
  also have "\<dots> = awaitStep (invocation operation # typedPromises 1 typed) @ forOperations xs 0 []"
    by (rule forOperations_acc)
  finally show ?thesis .
qed

lemma forOperations_append:
  assumes "xs = [] \<or> \<not> isTypeOp (hd xs)"
  shows "forOperations (pre @ xs) 0 [] = forOperations pre 0 [] @ forOperations xs 0 []"
proof -
  have "forOperations (pre @ xs) 0 [] = forOperations (pre @ xs) (length pre + 0) (forOperations pre 0 [])"
    using forOperations_cut[OF assms, of 0 pre "[]"] by simp
  also have "\<dots> = forOperations xs 0 (forOperations pre 0 [])"
    by (rule forOperations_shift)
  also have "\<dots> = forOperations pre 0 [] @ forOperations xs 0 []"
    by (rule forOperations_acc)
  finally show ?thesis .
qed


lemma stringifyOperations_group:
  assumes "forFlags (flags t) [] = Inr ftxt"
    and "operations t = pre @ operation # typed @ xs"
    and "list_all isTypeOp typed" and "xs = [] \<or> \<not> isTypeOp (hd xs)"
    and "pre = [] \<or> \<not> isTypeOp operation"
  shows "stringifyOperations t =
         Inr (ftxt @ forOperations pre 0 [] @
              awaitStep (invocation operation # typedPromises 1 typed) @ forOperations xs 0 [])"
proof -
  have "forOperations (pre @ operation # typed @ xs) 0 [] =
        forOperations pre 0 [] @ forOperations (operation # typed @ xs) 0 []"
  proof (cases "pre = []")
    case True
    then show ?thesis by (simp add: forOperations_done)
  next
    case False
    with assms(5) have "operation # typed @ xs = [] \<or> \<not> isTypeOp (hd (operation # typed @ xs))"
      by simp
    then show ?thesis by (rule forOperations_append)
  qed
  also have "forOperations (operation # typed @ xs) 0 [] =
             awaitStep (invocation operation # typedPromises 1 typed) @ forOperations xs 0 []"
    by (rule forOperations_group[OF assms(3,4)])
  finally have "forOperations (operations t) 0 [] =
      forOperations pre 0 [] @ awaitStep (invocation operation # typedPromises 1 typed) @
      forOperations xs 0 []"
    unfolding assms(2) .
  moreover have "stringifyOperations t = Inr (ftxt @ forOperations (operations t) 0 [])"
    using assms(1) forOperations_acc[of "operations t" 0 ftxt] by (simp add: stringifyOperations_def)
  ultimately show ?thesis by simp
qed

lemma awaitStep_single: "awaitStep [x] = ''await '' @ x @ '';'' @ [nl]"
  by (simp add: awaitStep_def)

lemma awaitStep_joined:
  "ps \<noteq> [] \<Longrightarrow> awaitStep (x # ps) =
     ''await Promise.all(['' @ joinWith '','' (map (\<lambda>y. [nl] @ ''  '' @ y @ '','') (x # ps)) @ '']);''"
  by (cases ps) (simp_all add: awaitStep_def)


lemma invocation_type:
  assumes "isTypeOp operation"
  shows "invocation operation =
     ''executeCommand('' @ jsonStringify (command operation) @
       (case args operation of None \<Rightarrow> [] | Some a \<Rightarrow> if a = [] then [] else '', '' @ a) @ '')''"
proof -
  from assms obtain r where "command operation = ''type:'' @ r"
    unfolding isTypeOp_def startsWith_def by (metis append_take_drop_id)
  then have "charAt (command operation) 0 \<noteq> Some ''.''" by (simp add: charAt_def)
  then show ?thesis by (simp add: invocation_def Let_def)
qed

section \<open>Properties of the code generator and of the generated suite\<close>

lemma buildLoop_append:
  "buildLoop u dir (xs @ ys) w =
     (case buildLoop u dir xs w of
        (w', Some e) \<Rightarrow> (w', Some e)
      | (w', None) \<Rightarrow> buildLoop u dir ys w')"
proof (induction xs arbitrary: w)
  case Nil
  then show ?case by simp
next
  case (Cons x xs)
  obtain name contents where x: "x = (name, contents)" by (cases x)
  show ?case unfolding x by (simp add: Cons.IH split: sum.splits)
qed

lemma build_append:
  "build u dir (xs @ ys) =
     (case build u dir xs of
        (w', Some e) \<Rightarrow> (w', Some e)
      | (w', None) \<Rightarrow> buildLoop u dir (filter (\<lambda>(f, c). endsWith f ''.md'') ys) w')"
  by (simp add: build_def buildLoop_append)



lemma seedSetups_notify: "notifyDependents (seedSetups ds s) = notifyDependents s"
  by (induction ds arbitrary: s) simp_all


















section \<open>The claims\<close>

subsection \<open>C1: unknown dependencies\<close>

text \<open>
  C1, amended. If the \<open>comesAfter\<close> title of a Transition is neither the title of an
  InitialState of the file (wherever it stands) nor the title of an earlier Transition, then
  \<open>parseMarkdownTests\<close> rejects the specification; when the header count matches, the
  InitialState titles are distinct and every earlier Transition has a known dependency, the
  error is the validation error naming the test's title and the missing dependency's title.
  This includes a title that only a later Transition declares.
\<close>

theorem unknown_dependency_rejected:
  assumes "parseEntries contents = (initial, pre @ t # post)"
    and "comesAfter t \<notin> title ` set initial \<union> title ` set pre"
  shows "(\<exists>e. parseMarkdownTests contents = Inl e) \<and>
         (length (execAll headerRe 0 contents) = length (pre @ t # post) + length initial \<and>
          distinct (map title initial) \<and>
          (\<forall>i < length pre. comesAfter (pre ! i) \<in> title ` set initial \<union> title ` set (take i pre))
          \<longrightarrow> parseMarkdownTests contents =
                Inl (AssertionError (unknownMessage (title t) (comesAfter t))))"
proof (intro conjI impI)
  show "\<exists>e. parseMarkdownTests contents = Inl e"
  proof (cases "checkInitial initial {}")
    case (Inl e)
    then show ?thesis by (simp add: parseMarkdownTests_cases[OF assms(1)])
  next
    case (Inr ex)
    then have ex: "ex = title ` set initial" by (simp add: checkInitial_Inr)
    from assms(2) have "comesAfter t \<notin> ex \<union> title ` set pre" unfolding ex .
    from checkTests_unknown_rejected[OF this, of post] obtain e where
      "checkTests (pre @ t # post) ex = Inl e" by blast
    with Inr show ?thesis by (simp add: parseMarkdownTests_cases[OF assms(1)])
  qed
next
  assume a: "length (execAll headerRe 0 contents) = length (pre @ t # post) + length initial \<and>
          distinct (map title initial) \<and>
          (\<forall>i < length pre. comesAfter (pre ! i) \<in> title ` set initial \<union> title ` set (take i pre))"
  then have ci: "checkInitial initial {} = Inr (title ` set initial)"
    by (simp add: checkInitial_Inr)
  from a have "\<forall>i < length pre. comesAfter (pre ! i) \<in> title ` set initial \<union> title ` set (take i pre)"
    by simp
  from checkTests_first_unknown[OF this assms(2), of post]
  have "checkTests (pre @ t # post) (title ` set initial) =
        Inl (AssertionError (unknownMessage (title t) (comesAfter t)))" .
  with ci a show "parseMarkdownTests contents =
                Inl (AssertionError (unknownMessage (title t) (comesAfter t)))"
    by (simp add: parseMarkdownTests_cases[OF assms(1)])
qed

text \<open>
  In \<open>forwardSpec\<close> the dependency \<open>C\<close> of \<open>B\<close> is declared by a later Transition only:
  the error names \<open>B\<close> and \<open>C\<close>.
\<close>

theorem unknown_dependency_rejected_witness:
  "parseMarkdownTests forwardSpec = Inl (AssertionError (unknownMessage ''B'' ''C''))"
proof -
  let ?A = "\<lparr>title = ''A'', flags = [], code = ''a\<newline>''\<rparr>"
  let ?B = "\<lparr>title = ''B'', flags = [], code = ''b\<newline>'', comesAfter = ''C'',
             operations = [\<lparr>command = ''x'', args = None\<rparr>]\<rparr>"
  let ?C = "\<lparr>title = ''C'', flags = [], code = ''c\<newline>'', comesAfter = ''A'',
             operations = [\<lparr>command = ''y'', args = None\<rparr>]\<rparr>"
  have p: "parseEntries forwardSpec = ([?A], [] @ ?B # [?C])" by code_simp
  have h: "length (execAll headerRe 0 forwardSpec) = length ([] @ ?B # [?C]) + length [?A]"
    by code_simp
  have u: "comesAfter ?B \<notin> title ` set [?A] \<union> title ` set []" by simp
  from unknown_dependency_rejected[OF p u] h show ?thesis by simp
qed

text \<open>
  C1, as stated, fails: in \<open>laterInitialSpec\<close> Transition \<open>B\<close> comes after \<open>A\<close>, an
  InitialState declared later in the file, and the specification is accepted, since the
  InitialState titles are all known before the first Transition is checked.
\<close>

theorem unknown_dependency_rejected_counterexample:
  "parseMarkdownTests laterInitialSpec =
     Inr \<lparr>setups = [\<lparr>title = ''A'', flags = [], code = ''a\<newline>''\<rparr>],
          tests = [\<lparr>title = ''B'', flags = [], code = ''b\<newline>'', comesAfter = ''A'',
                    operations = [\<lparr>command = ''x'', args = None\<rparr>]\<rparr>]\<rparr>"
  by code_simp

subsection \<open>C2: titles that differ in whitespace\<close>

text \<open>
  C2, amended. Two header texts that agree character by character, except that where one has
  a whitespace character the other may have another whitespace character, get the same
  title; when both head InitialState entries of a file whose header count matches,
  \<open>parseMarkdownTests\<close> fails with the duplicate-title error of an InitialState.
\<close>

theorem whitespace_titles_duplicate:
  assumes "list_all2 (\<lambda>x y. x = y \<or> (isSpace x \<and> isSpace y)) h1 h2"
    and "execAll re 4 contents =
           ms1 @ [w1, Some h1, None, Some b1, Some c1] # ms2 @ [w2, Some h2, None, Some b2, Some c2] # ms3"
    and "length (execAll headerRe 0 contents) =
           length (snd (parseEntries contents)) + length (fst (parseEntries contents))"
  shows "replaceSpaces h1 = replaceSpaces h2 \<and>
         (\<exists>d \<in> set (fst (parseEntries contents)).
            parseMarkdownTests contents = Inl (AssertionError (initialMessage (title d))))"
proof
  show e: "replaceSpaces h1 = replaceSpaces h2" by (rule replaceSpaces_eq[OF assms(1)])
  obtain initial ts where p: "parseEntries contents = (initial, ts)" by force
  let ?f = "\<lambda>m. fst (parseEntry m ([], []))"
  have "initial = concat (map ?f (execAll re 4 contents))"
    using p unfolding parseEntries_def parseEntries_fold by simp
  then have "map title initial =
      map title (concat (map ?f ms1)) @ replaceSpaces h1 #
      map title (concat (map ?f ms2)) @ replaceSpaces h2 # map title (concat (map ?f ms3))"
    unfolding assms(2) by (simp add: parseEntry_initial)
  with e have "\<not> distinct (map title initial)" by simp
  then have "\<And>ex. checkInitial initial {} \<noteq> Inr ex" by (simp add: checkInitial_Inr)
  then obtain err where c: "checkInitial initial {} = Inl err"
    by (cases "checkInitial initial {}") auto
  from checkInitial_Inl[OF c] obtain d where "d \<in> set initial"
    and "err = AssertionError (initialMessage (title d))" by blast
  with c assms(3) p show "\<exists>d \<in> set (fst (parseEntries contents)).
            parseMarkdownTests contents = Inl (AssertionError (initialMessage (title d)))"
    by (auto simp: parseMarkdownTests_cases[OF p])
qed

text \<open>
  The headers \<open>A b\<close> written with a space and with a tab both get the title \<open>A-b\<close>.
\<close>

theorem whitespace_titles_duplicate_witness:
  "replaceSpaces ''A b'' = replaceSpaces (''A'' @ [CHR 0x09] @ ''b'') \<and>
   parseMarkdownTests tabSpec = Inl (AssertionError (initialMessage ''A-b''))"
proof -
  have l: "list_all2 (\<lambda>x y. x = y \<or> (isSpace x \<and> isSpace y)) ''A b'' (''A'' @ [CHR 0x09] @ ''b'')"
    by (simp add: isSpace_def)
  have m: "execAll re 4 tabSpec =
     [] @ [Some (''# A b\<newline>\<newline>```\<newline>a\<newline>```\<newline>''), Some ''A b'', None, Some ''\<newline>'', Some ''a\<newline>''] #
     [] @ [Some (''# A'' @ [CHR 0x09] @ ''b\<newline>\<newline>```\<newline>a\<newline>```\<newline>''), Some (''A'' @ [CHR 0x09] @ ''b''), None,
           Some ''\<newline>'', Some ''a\<newline>''] # []"
    by code_simp
  have p: "parseEntries tabSpec =
     ([\<lparr>title = ''A-b'', flags = [], code = ''a\<newline>''\<rparr>, \<lparr>title = ''A-b'', flags = [], code = ''a\<newline>''\<rparr>], [])"
    by code_simp
  have h: "length (execAll headerRe 0 tabSpec) =
           length (snd (parseEntries tabSpec)) + length (fst (parseEntries tabSpec))"
    by code_simp
  from whitespace_titles_duplicate[OF l m h] show ?thesis by (auto simp: p)
qed

text \<open>
  C2, as stated, fails: whitespace is not collapsed, every whitespace character becomes a
  hyphen of its own, so the headers \<open>A b\<close> and \<open>A  b\<close>, which differ only in whitespace,
  get the titles \<open>A-b\<close> and \<open>A--b\<close> and the specification is accepted.
\<close>

theorem whitespace_titles_duplicate_counterexample:
  "parseMarkdownTests spacesSpec =
     Inr \<lparr>setups = [\<lparr>title = ''A-b'', flags = [], code = ''a\<newline>''\<rparr>,
                    \<lparr>title = ''A--b'', flags = [], code = ''a\<newline>''\<rparr>],
          tests = []\<rparr>"
  by code_simp

subsection \<open>C3: the header count\<close>

text \<open>
  C3. For every input text, \<open>parseMarkdownTests\<close> fails with the error "not all tests were
  parsed" whenever the number of lines beginning with \<open># \<close> differs from the number of
  parsed entries, and then \<open>build\<close> fails on the file with that error before the text of the
  suite is made: it writes nothing for the file (nor for a later one) and ends with an error.
  An accepted specification has as many entries as header lines, and the parser makes one
  entry of every match of the entry expression, so no entry is dropped silently.
\<close>

theorem header_count_mismatch_rejected:
  "(length (execAll headerRe 0 contents) \<noteq>
      length (snd (parseEntries contents)) + length (fst (parseEntries contents)) \<longrightarrow>
      parseMarkdownTests contents = Inl (AssertionError ''not all tests were parsed'') \<and>
      buildFile u file contents = Inl (AssertionError ''not all tests were parsed'') \<and>
      (endsWith file ''.md'' \<longrightarrow>
         fst (build u dir (before @ (file, contents) # later)) = fst (build u dir before) \<and>
         snd (build u dir (before @ (file, contents) # later)) \<noteq> None)) \<and>
   (\<forall>r. parseMarkdownTests contents = Inr r \<longrightarrow>
      setups r = fst (parseEntries contents) \<and> tests r = snd (parseEntries contents) \<and>
      length (tests r) + length (setups r) = length (execAll headerRe 0 contents)) \<and>
   length (fst (parseEntries contents)) + length (snd (parseEntries contents)) =
     length (execAll re 4 contents)"
proof -
  obtain initial ts where p: "parseEntries contents = (initial, ts)" by force
  have a: "parseMarkdownTests contents = Inl (AssertionError ''not all tests were parsed'')"
    if "length (execAll headerRe 0 contents) \<noteq> length ts + length initial"
    using that by (simp add: parseMarkdownTests_cases[OF p])
  have b: "buildFile u file contents = Inl (AssertionError ''not all tests were parsed'')"
    if "length (execAll headerRe 0 contents) \<noteq> length ts + length initial"
    using a[OF that] by (simp add: buildFile_def)
  have c: "fst (build u dir (before @ (file, contents) # later)) = fst (build u dir before) \<and>
           snd (build u dir (before @ (file, contents) # later)) \<noteq> None"
    if "length (execAll headerRe 0 contents) \<noteq> length ts + length initial"
      and "endsWith file ''.md''"
    using b[OF that(1)] that(2)
    by (simp add: build_append split: prod.splits option.splits)
  have d: "setups r = initial \<and> tests r = ts \<and>
           length (tests r) + length (setups r) = length (execAll headerRe 0 contents)"
    if "parseMarkdownTests contents = Inr r" for r
    using that by (auto simp: parseMarkdownTests_cases[OF p] split: if_splits sum.splits)
  from parseEntries_count[of contents]
  have n: "length initial + length ts = length (execAll re 4 contents)" by (simp add: p)
  show ?thesis
    unfolding p fst_conv snd_conv
  proof (intro conjI impI allI)
    show "length initial + length ts = length (execAll re 4 contents)" by (rule n)
  next
    assume m: "length (execAll headerRe 0 contents) \<noteq> length ts + length initial"
    show "parseMarkdownTests contents = Inl (AssertionError ''not all tests were parsed'')"
      by (rule a[OF m])
    show "buildFile u file contents = Inl (AssertionError ''not all tests were parsed'')"
      by (rule b[OF m])
    assume e: "endsWith file ''.md''"
    from c[OF m e]
    show "fst (build u dir (before @ (file, contents) # later)) = fst (build u dir before)"
      and "snd (build u dir (before @ (file, contents) # later)) \<noteq> None"
      by simp_all
  next
    fix r assume "parseMarkdownTests contents = Inr r"
    from d[OF this] show "setups r = initial" and "tests r = ts"
      and "length (tests r) + length (setups r) = length (execAll headerRe 0 contents)"
      by auto
  qed
qed

text \<open>
  In \<open>unfencedSpec\<close> two header lines stand against one parsed entry.
\<close>

theorem header_count_mismatch_rejected_witness:
  "parseMarkdownTests unfencedSpec = Inl (AssertionError ''not all tests were parsed'') \<and>
   build plainUtils ''commands'' [(''a.md'', unfencedSpec)] = ([], Some (AssertionError ''not all tests were parsed''))"
proof -
  have p: "parseEntries unfencedSpec = ([\<lparr>title = ''A'', flags = [], code = ''a\<newline>''\<rparr>], [])"
    by code_simp
  have h: "length (execAll headerRe 0 unfencedSpec) = 2" by code_simp
  have e: "endsWith ''a.md'' ''.md''" by (simp add: endsWith_def)
  from header_count_mismatch_rejected[of unfencedSpec plainUtils "''a.md''" "''commands''" "[]" "[]"] p h e
  show ?thesis by (simp add: build_def)
qed

subsection \<open>C4: flags\<close>



subsection \<open>C5: flags before operations\<close>

text \<open>
  C5. For every transition, every configuration step produced from a flag appears in the
  emitted step sequence before every step produced from an operation: the emitted text is
  the text of the flags alone (what the same transition emits without its operations, one
  configuration step per flag) followed by the text of the operations alone (what it emits
  without its flags).
\<close>

theorem flag_steps_precede_operation_steps:
  assumes "stringifyOperations t = Inr res"
  shows "\<exists>svs. list_all2 (\<lambda>flag sv. flagGrammar flag (fst sv) (snd sv)) (flags t) svs \<and>
           stringifyOperations (t\<lparr>operations := []\<rparr>) =
             Inr (concat (map (\<lambda>sv. behaviorStep (fst sv) (snd sv)) svs)) \<and>
           stringifyOperations (t\<lparr>flags := []\<rparr>) = Inr (forOperations (operations t) 0 []) \<and>
           res = concat (map (\<lambda>sv. behaviorStep (fst sv) (snd sv)) svs) @
                   forOperations (operations t) 0 []"
proof -
  from assms obtain ftxt where f: "forFlags (flags t) [] = Inr ftxt"
    and r: "res = forOperations (operations t) 0 ftxt"
    by (auto simp: stringifyOperations_def split: sum.splits)
  from forFlags_Inr[OF f] obtain svs where
    l: "list_all2 (\<lambda>flag sv. flagGrammar flag (fst sv) (snd sv)) (flags t) svs" and
    ft: "ftxt = concat (map (\<lambda>sv. behaviorStep (fst sv) (snd sv)) svs)"
    by auto
  have "res = ftxt @ forOperations (operations t) 0 []"
    unfolding r by (rule forOperations_acc)
  moreover have "stringifyOperations (t\<lparr>operations := []\<rparr>) = Inr ftxt"
    using f by (simp add: stringifyOperations_def forOperations_done)
  moreover have "stringifyOperations (t\<lparr>flags := []\<rparr>) = Inr (forOperations (operations t) 0 [])"
    by (simp add: stringifyOperations_def)
  ultimately show ?thesis using l ft by blast
qed

theorem flag_steps_precede_operation_steps_witness:
  "\<exists>svs. list_all2 (\<lambda>flag sv. flagGrammar flag (fst sv) (snd sv)) (flags exampleTest) svs \<and>
     stringifyOperations (exampleTest\<lparr>operations := []\<rparr>) =
       Inr (concat (map (\<lambda>sv. behaviorStep (fst sv) (snd sv)) svs)) \<and>
     stringifyOperations (exampleTest\<lparr>flags := []\<rparr>) =
       Inr (forOperations (operations exampleTest) 0 []) \<and>
     behaviorStep ''normal'' ''caret'' @
       awaitStep [invocation \<lparr>command = ''.insert.a'', args = None\<rparr>,
                  typePromise (Some ''a'') 20, typePromise (Some ''b'') 40] @
       awaitStep [invocation \<lparr>command = ''.left'', args = Some '' { count: 2 }''\<rparr>] =
     concat (map (\<lambda>sv. behaviorStep (fst sv) (snd sv)) svs) @
       forOperations (operations exampleTest) 0 []"
proof -
  have "stringifyOperations exampleTest =
     Inr (behaviorStep ''normal'' ''caret'' @
          awaitStep [invocation \<lparr>command = ''.insert.a'', args = None\<rparr>,
                     typePromise (Some ''a'') 20, typePromise (Some ''b'') 40] @
          awaitStep [invocation \<lparr>command = ''.left'', args = Some '' { count: 2 }''\<rparr>])"
    by code_simp
  from flag_steps_precede_operation_steps[OF this] show ?thesis .
qed

subsection \<open>C6: typed characters join the step before them\<close>



subsection \<open>C7: one test per transition\<close>



subsection \<open>C8: failures make the dependents skip\<close>




subsection \<open>C9: repeated titles of transitions\<close>

text \<open>
  C9. Whether a specification is accepted does not depend on the titles of its Transitions
  being new: it is accepted exactly when the header count matches, the InitialState titles
  are distinct, and every Transition comes after an InitialState or an earlier Transition.
  Hence a Transition whose title is that of an InitialState or of an earlier Transition is
  accepted: duplicates are checked among InitialState entries only, and a Transition's title
  joins the known titles unconditionally.
\<close>

theorem duplicate_transition_titles_accepted:
  assumes "parseEntries contents = (initial, ts)"
  shows "parseMarkdownTests contents = Inr \<lparr>setups = initial, tests = ts\<rparr> \<longleftrightarrow>
           length (execAll headerRe 0 contents) = length ts + length initial \<and>
           distinct (map title initial) \<and>
           (\<forall>i < length ts. comesAfter (ts ! i) \<in> title ` set initial \<union> title ` set (take i ts))"
proof (cases "checkInitial initial {}")
  case (Inl e)
  then have "\<not> distinct (map title initial)"
    using checkInitial_Inr[of initial "{}"] by auto
  with Inl show ?thesis by (simp add: parseMarkdownTests_cases[OF assms])
next
  case (Inr ex)
  then have d: "distinct (map title initial)" and ex: "ex = title ` set initial"
    by (simp_all add: checkInitial_Inr)
  show ?thesis
  proof (cases "checkTests ts ex")
    case (Inl e)
    then have "\<not> (\<forall>i < length ts. comesAfter (ts ! i) \<in> title ` set initial \<union> title ` set (take i ts))"
      using checkTests_Inr[of ts ex] unfolding ex by auto
    with Inl Inr show ?thesis by (simp add: parseMarkdownTests_cases[OF assms])
  next
    case r: (Inr ex')
    then have "\<forall>i < length ts. comesAfter (ts ! i) \<in> title ` set initial \<union> title ` set (take i ts)"
      using checkTests_Inr[of ts ex ex'] unfolding ex by simp
    with r Inr d show ?thesis by (simp add: parseMarkdownTests_cases[OF assms])
  qed
qed

text \<open>
  \<open>duplicateSpec\<close>, with an InitialState and two Transitions all titled \<open>A\<close>, is accepted.
\<close>

theorem duplicate_transition_titles_accepted_witness:
  "parseMarkdownTests duplicateSpec =
     Inr \<lparr>setups = [\<lparr>title = ''A'', flags = [], code = ''a\<newline>''\<rparr>],
          tests = [\<lparr>title = ''A'', flags = [], code = ''b\<newline>'', comesAfter = ''A'',
                     operations = [\<lparr>command = ''x'', args = None\<rparr>]\<rparr>,
                   \<lparr>title = ''A'', flags = [], code = ''c\<newline>'', comesAfter = ''A'',
                     operations = [\<lparr>command = ''y'', args = None\<rparr>]\<rparr>]\<rparr>"
proof -
  let ?A = "\<lparr>title = ''A'', flags = [], code = ''a\<newline>''\<rparr>"
  let ?B = "\<lparr>title = ''A'', flags = [], code = ''b\<newline>'', comesAfter = ''A'',
             operations = [\<lparr>command = ''x'', args = None\<rparr>]\<rparr>"
  let ?C = "\<lparr>title = ''A'', flags = [], code = ''c\<newline>'', comesAfter = ''A'',
             operations = [\<lparr>command = ''y'', args = None\<rparr>]\<rparr>"
  have p: "parseEntries duplicateSpec = ([?A], [?B, ?C])" by code_simp
  have h: "length (execAll headerRe 0 duplicateSpec) = length [?B, ?C] + length [?A]"
    by code_simp
  have v: "\<forall>i < length [?B, ?C]. comesAfter ([?B, ?C] ! i) \<in> title ` set [?A] \<union> title ` set (take i [?B, ?C])"
    by (simp add: less_Suc_eq nth_Cons')
  from duplicate_transition_titles_accepted[OF p] h v show ?thesis by simp
qed

subsection \<open>C10: a leading type: operation\<close>

text \<open>
  C10, amended. A \<open>type:\<close> operation that is the first operation of a transition is
  neither rejected nor merged into a preceding group: it is emitted as an ordinary invocation
  of its literal command name (no prefix is added), awaited on its own when the next operation
  is not a \<open>type:\<close> operation, and as the invoking member of a joined group when
  \<open>type:\<close> operations follow it.
\<close>

theorem leading_type_operation:
  assumes "forFlags (flags t) [] = Inr ftxt"
    and "operations t = operation # typed @ xs"
    and "isTypeOp operation"
    and "list_all isTypeOp typed" and "xs = [] \<or> \<not> isTypeOp (hd xs)"
  shows "stringifyOperations t =
           Inr (ftxt @ awaitStep (invocation operation # typedPromises 1 typed) @
                forOperations xs 0 []) \<and>
         invocation operation =
           ''executeCommand('' @ jsonStringify (command operation) @
             (case args operation of None \<Rightarrow> [] | Some a \<Rightarrow> if a = [] then [] else '', '' @ a) @ '')'' \<and>
         (if typed = []
          then awaitStep (invocation operation # typedPromises 1 typed) =
                 ''await '' @ invocation operation @ '';'' @ [nl]
          else awaitStep (invocation operation # typedPromises 1 typed) =
                 ''await Promise.all(['' @
                 joinWith '','' (map (\<lambda>y. [nl] @ ''  '' @ y @ '','')
                                  (invocation operation # typedPromises 1 typed)) @ '']);'')"
proof (intro conjI)
  have "operations t = [] @ operation # typed @ xs" using assms(2) by simp
  from stringifyOperations_group[OF assms(1) this assms(4,5)]
  show "stringifyOperations t =
           Inr (ftxt @ awaitStep (invocation operation # typedPromises 1 typed) @
                forOperations xs 0 [])"
    by (simp add: forOperations_done)
  show "invocation operation =
           ''executeCommand('' @ jsonStringify (command operation) @
             (case args operation of None \<Rightarrow> [] | Some a \<Rightarrow> if a = [] then [] else '', '' @ a) @ '')''"
    by (rule invocation_type[OF assms(3)])
  show "if typed = []
          then awaitStep (invocation operation # typedPromises 1 typed) =
                 ''await '' @ invocation operation @ '';'' @ [nl]
          else awaitStep (invocation operation # typedPromises 1 typed) =
                 ''await Promise.all(['' @
                 joinWith '','' (map (\<lambda>y. [nl] @ ''  '' @ y @ '','')
                                  (invocation operation # typedPromises 1 typed)) @ '']);''"
  proof (cases typed)
    case Nil
    then show ?thesis by (simp add: awaitStep_single)
  next
    case (Cons a as)
    then have "typedPromises 1 typed \<noteq> []" by simp
    from awaitStep_joined[OF this] Cons show ?thesis by simp
  qed
qed

text \<open>
  A leading \<open>type:a\<close> followed by another command is awaited on its own, under its
  literal name.
\<close>

theorem leading_type_operation_witness:
  "stringifyOperations \<lparr>title = ''B'', flags = [], code = ''b'', comesAfter = ''A'',
      operations = [\<lparr>command = ''type:a'', args = None\<rparr>, \<lparr>command = ''.left'', args = None\<rparr>]\<rparr> =
     Inr (''await executeCommand('' @ [dq] @ ''type:a'' @ [dq] @ '');'' @ [nl] @
          ''await executeCommand('' @ [dq] @ ''dance.left'' @ [dq] @ '');'' @ [nl])"
proof -
  let ?a = "\<lparr>command = ''type:a'', args = None\<rparr>"
  let ?l = "\<lparr>command = ''.left'', args = None\<rparr>"
  let ?t = "\<lparr>title = ''B'', flags = [], code = ''b'', comesAfter = ''A'', operations = [?a, ?l]\<rparr>"
  have f: "forFlags (flags ?t) [] = Inr []" by simp
  have o: "operations ?t = ?a # [] @ [?l]" by simp
  have ty: "isTypeOp ?a" by (simp add: isTypeOp_def startsWith_def)
  have x: "[?l] = [] \<or> \<not> isTypeOp (hd [?l])" by (simp add: isTypeOp_def startsWith_def)
  have l: "forOperations [?l] 0 [] = ''await executeCommand('' @ [dq] @ ''dance.left'' @ [dq] @ '');'' @ [nl]"
    by code_simp
  have j: "jsonStringify ''type:a'' = [dq] @ ''type:a'' @ [dq]" by code_simp
  from leading_type_operation[OF f o ty _ x] l j show ?thesis
    by (simp add: awaitStep_single)
qed

text \<open>
  C10, as stated, fails: a leading \<open>type:a\<close> followed by \<open>type:b\<close> is not awaited on its own
  but is the first member of a joined group.
\<close>

theorem leading_type_operation_counterexample:
  "stringifyOperations leadingTypeTest =
     Inr (''await Promise.all(['' @ [nl] @
          ''  executeCommand('' @ [dq] @ ''type:a'' @ [dq] @ ''),,'' @ [nl] @
          ''  new Promise((resolve) => setTimeout(() => executeCommand('' @ [dq] @ ''type'' @ [dq] @
          '', { text: '' @ [dq] @ ''b'' @ [dq] @ '' }).then(resolve), 20)),]);'')"
  by code_simp

end
